theory Spec2Isabelle
  imports Complex_Main "HOL-Library.Log_Nat"
begin

section \<open>Python values used by \<open>resize.py\<close>\<close>

text \<open>
  Exceptions that the modelled code can raise. \<open>LibraryError\<close> stands for any
  exception raised inside the image library (decode failure, write failure, ...),
  carrying its message.
\<close>

datatype exn =
    ZeroDivisionError
  | OverflowError
  | ValueError
  | TypeError
  | LibraryError string

text \<open>
  A Python \<open>float\<close> is an IEEE-754 binary64 value. Finite values are kept as the
  rational they denote; the two zeros are identified, which no operation used by
  the program can tell apart.
\<close>

datatype pyfloat = Fin rat | PInf | NInf | NaN

text \<open>\<open>ilog2 x\<close> is the binary exponent of a positive rational: the largest \<open>e\<close>
  with \<open>2 ^ e \<le> x\<close>.\<close>

definition ilog2 :: "rat \<Rightarrow> int" where
  "ilog2 x =
     (let (a, b) = quotient_of x; d = bitlen a - bitlen b
      in if 2 powi d \<le> x then d else d - 1)"

text \<open>Rounding to the nearest integer, ties to the even one.\<close>

definition round_half_even :: "rat \<Rightarrow> int" where
  "round_half_even x =
     (let n = \<lfloor>x\<rfloor>; r = x - of_int n
      in if r < 1 / 2 then n
         else if 1 / 2 < r then n + 1
         else if even n then n else n + 1)"

text \<open>
  \<open>fl x\<close> is the binary64 value nearest to the exact result \<open>x\<close> (round to nearest,
  ties to even): 53 significant bits, exponent at least \<open>-1022\<close> (below that the
  spacing stays \<open>2 ^ -1074\<close>), and infinity from \<open>2 ^ 1024\<close> on.
\<close>

definition fl :: "rat \<Rightarrow> pyfloat" where
  "fl x =
     (if x = 0 then Fin 0
      else let q = max (ilog2 \<bar>x\<bar>) (- 1022) - 52;
               r = of_int (round_half_even (x / 2 powi q)) * 2 powi q
           in if 2 powi 1024 \<le> \<bar>r\<bar> then (if 0 < x then PInf else NInf) else Fin r)"

text \<open>\<open>float * float\<close>.\<close>

fun fmul :: "pyfloat \<Rightarrow> pyfloat \<Rightarrow> pyfloat" where
  "fmul NaN _ = NaN"
| "fmul _ NaN = NaN"
| "fmul (Fin a) (Fin b) = fl (a * b)"
| "fmul (Fin a) PInf = (if a = 0 then NaN else if 0 < a then PInf else NInf)"
| "fmul (Fin a) NInf = (if a = 0 then NaN else if 0 < a then NInf else PInf)"
| "fmul PInf (Fin b) = (if b = 0 then NaN else if 0 < b then PInf else NInf)"
| "fmul NInf (Fin b) = (if b = 0 then NaN else if 0 < b then NInf else PInf)"
| "fmul PInf PInf = PInf"
| "fmul PInf NInf = NInf"
| "fmul NInf PInf = NInf"
| "fmul NInf NInf = PInf"

text \<open>\<open>float / float\<close>; a zero divisor raises.\<close>

fun fdiv :: "pyfloat \<Rightarrow> pyfloat \<Rightarrow> exn + pyfloat" where
  "fdiv NaN (Fin b) = (if b = 0 then Inl ZeroDivisionError else Inr NaN)"
| "fdiv NaN _ = Inr NaN"
| "fdiv _ NaN = Inr NaN"
| "fdiv (Fin a) (Fin b) = (if b = 0 then Inl ZeroDivisionError else Inr (fl (a / b)))"
| "fdiv (Fin a) PInf = Inr (Fin 0)"
| "fdiv (Fin a) NInf = Inr (Fin 0)"
| "fdiv PInf (Fin b) =
     (if b = 0 then Inl ZeroDivisionError else Inr (if 0 < b then PInf else NInf))"
| "fdiv NInf (Fin b) =
     (if b = 0 then Inl ZeroDivisionError else Inr (if 0 < b then NInf else PInf))"
| "fdiv PInf PInf = Inr NaN"
| "fdiv PInf NInf = Inr NaN"
| "fdiv NInf PInf = Inr NaN"
| "fdiv NInf NInf = Inr NaN"

text \<open>\<open>float(n)\<close> for an \<open>int\<close>: correctly rounded, \<open>OverflowError\<close> when too large.\<close>

definition int_to_float :: "int \<Rightarrow> exn + pyfloat" where
  "int_to_float n = (case fl (of_int n) of Fin r \<Rightarrow> Inr (Fin r) | _ \<Rightarrow> Inl OverflowError)"

text \<open>\<open>int * float\<close> and \<open>float / int\<close> convert the \<open>int\<close> operand first.\<close>

definition int_mul_float :: "int \<Rightarrow> pyfloat \<Rightarrow> exn + pyfloat" where
  "int_mul_float n x = (case int_to_float n of Inl e \<Rightarrow> Inl e | Inr a \<Rightarrow> Inr (fmul a x))"

definition float_div_int :: "pyfloat \<Rightarrow> int \<Rightarrow> exn + pyfloat" where
  "float_div_int x n = (case int_to_float n of Inl e \<Rightarrow> Inl e | Inr b \<Rightarrow> fdiv x b)"

text \<open>\<open>a / b\<close> on two \<open>int\<close>s: the correctly rounded quotient.\<close>

definition int_truediv :: "int \<Rightarrow> int \<Rightarrow> exn + pyfloat" where
  "int_truediv a b =
     (if b = 0 then Inl ZeroDivisionError
      else case fl (of_int a / of_int b) of Fin r \<Rightarrow> Inr (Fin r) | _ \<Rightarrow> Inl OverflowError)"

text \<open>\<open>int(x)\<close> on a \<open>float\<close>: truncation toward zero.\<close>

definition trunc :: "rat \<Rightarrow> int" where
  "trunc r = (if 0 \<le> r then \<lfloor>r\<rfloor> else \<lceil>r\<rceil>)"

fun float_to_int :: "pyfloat \<Rightarrow> exn + int" where
  "float_to_int (Fin r) = Inr (trunc r)"
| "float_to_int PInf = Inl OverflowError"
| "float_to_int NInf = Inl OverflowError"
| "float_to_int NaN = Inl ValueError"

text \<open>Truth value of an optional number (\<open>None\<close> and zero are false; \<open>nan\<close> is true).\<close>

fun truthy_float :: "pyfloat option \<Rightarrow> bool" where
  "truthy_float None = False"
| "truthy_float (Some (Fin r)) = (r \<noteq> 0)"
| "truthy_float (Some _) = True"

fun truthy_int :: "int option \<Rightarrow> bool" where
  "truthy_int None = False"
| "truthy_int (Some n) = (n \<noteq> 0)"

text \<open>\<open>x <= 0\<close> on a \<open>float\<close>; every comparison with \<open>nan\<close> is false.\<close>

fun float_le_zero :: "pyfloat \<Rightarrow> bool" where
  "float_le_zero (Fin r) = (r \<le> 0)"
| "float_le_zero NInf = True"
| "float_le_zero PInf = False"
| "float_le_zero NaN = False"


section \<open>Paths and file names\<close>

text \<open>Index of the last occurrence of a character (\<open>str.rfind\<close>; \<open>None\<close> for \<open>-1\<close>).\<close>

fun rfind :: "char \<Rightarrow> string \<Rightarrow> nat option" where
  "rfind c [] = None"
| "rfind c (x # xs) =
     (case rfind c xs of
        Some i \<Rightarrow> Some (Suc i)
      | None \<Rightarrow> if x = c then Some 0 else None)"

text \<open>
  \<open>Path(file).suffix\<close> for a bare file name, as \<open>os.listdir\<close> returns them: the part
  from the last dot on, provided that dot is neither the first nor the last character.
\<close>

definition suffix :: "string \<Rightarrow> string" where
  "suffix name =
     (case rfind (CHR ''.'') name of
        None \<Rightarrow> []
      | Some i \<Rightarrow> if 0 < i \<and> i < length name - 1 then drop i name else [])"

text \<open>\<open>os.path.join\<close> and \<open>os.path.basename\<close> (POSIX).\<close>

definition path_join :: "string \<Rightarrow> string \<Rightarrow> string" where
  "path_join a b =
     (if b \<noteq> [] \<and> hd b = CHR ''/'' then b
      else if a = [] \<or> last a = CHR ''/'' then a @ b
      else a @ ''/'' @ b)"

definition basename :: "string \<Rightarrow> string" where
  "basename p = (case rfind (CHR ''/'') p of None \<Rightarrow> p | Some i \<Rightarrow> drop (Suc i) p)"

text \<open>
  \<open>get_image_files\<close>, applied to the listing of the input folder: the entries whose
  suffix is one of the four literals, in listing order.
\<close>

definition extensions :: "string set" where
  "extensions = {''.jpg'', ''.jpeg'', ''.JPG'', ''.JPEG''}"

definition get_image_files :: "string list \<Rightarrow> string list" where
  "get_image_files entries = filter (\<lambda>file. suffix file \<in> extensions) entries"

section \<open>The per-file task \<open>resize_image\<close>\<close>

text \<open>
  The image library is a parameter: decoding, colour conversion, resampling, the
  in-place \<open>thumbnail\<close> and saving may each raise. \<open>'img\<close> is the type of decoded
  images; only their mode and size are observed by the program.
\<close>

record 'img library =
  img_open :: "string \<Rightarrow> exn + 'img"
  img_mode :: "'img \<Rightarrow> string"
  img_size :: "'img \<Rightarrow> int \<times> int"
  img_convert_rgb :: "'img \<Rightarrow> exn + 'img"
  img_resize :: "'img \<Rightarrow> int \<times> int \<Rightarrow> exn + 'img"
  img_thumbnail :: "'img \<Rightarrow> int \<times> int \<Rightarrow> exn + 'img"
  img_save :: "'img \<Rightarrow> string \<Rightarrow> exn + unit"

text \<open>The argument tuple of \<open>resize_image\<close>.\<close>

record task =
  input_path :: string
  output_path :: string
  t_width :: "int option"
  t_height :: "int option"
  t_percent :: "pyfloat option"
  maintain_aspect :: bool
  t_exact :: bool

text \<open>The branch of the \<open>if\<close>/\<open>elif\<close> chain that is taken, conditions in source order.\<close>

datatype mode = PercentMode | ExactMode | WidthOnly | HeightOnly | AspectFit | DefaultExact

definition branch :: "task \<Rightarrow> mode" where
  "branch t =
     (if truthy_float (t_percent t) then PercentMode
      else if t_exact t then ExactMode
      else if truthy_int (t_width t) \<and> \<not> truthy_int (t_height t) then WidthOnly
      else if truthy_int (t_height t) \<and> \<not> truthy_int (t_width t) then HeightOnly
      else if maintain_aspect t then AspectFit
      else DefaultExact)"

text \<open>\<open>int(n * percent / 100)\<close>.\<close>

definition percent_of :: "int \<Rightarrow> pyfloat \<Rightarrow> exn + int" where
  "percent_of n p =
     (case int_mul_float n p of
        Inl e \<Rightarrow> Inl e
      | Inr a \<Rightarrow> (case float_div_int a 100 of Inl e \<Rightarrow> Inl e | Inr b \<Rightarrow> float_to_int b))"

text \<open>\<open>aspect_ratio = num / den; int(given * aspect_ratio)\<close>.\<close>

definition scale_other :: "int \<Rightarrow> int \<Rightarrow> int \<Rightarrow> exn + int" where
  "scale_other given num den =
     (case int_truediv num den of
        Inl e \<Rightarrow> Inl e
      | Inr aspect_ratio \<Rightarrow>
          (case int_mul_float given aspect_ratio of
             Inl e \<Rightarrow> Inl e
           | Inr a \<Rightarrow> float_to_int a))"

text \<open>
  A call \<open>img.resize((width, height))\<close> or \<open>img.thumbnail((width, height))\<close> whose size
  holds \<open>None\<close> raises \<open>TypeError\<close>.
\<close>

definition with_size ::
  "('img \<Rightarrow> int \<times> int \<Rightarrow> exn + 'img) \<Rightarrow> 'img \<Rightarrow> int option \<Rightarrow> int option \<Rightarrow> exn + 'img" where
  "with_size f img w h =
     (case (w, h) of (Some w', Some h') \<Rightarrow> f img (w', h') | _ \<Rightarrow> Inl TypeError)"

text \<open>
  The body of the \<open>try\<close> block up to the image to be saved: the resized image and the
  \<open>width\<close> and \<open>height\<close> variables as they stand afterwards.
\<close>

definition resized_image ::
  "'img library \<Rightarrow> task \<Rightarrow> 'img \<Rightarrow> exn + ('img \<times> int option \<times> int option)" where
  "resized_image L t img =
     (let (ow, oh) = img_size L img in
      case branch t of
        PercentMode \<Rightarrow>
          (case percent_of ow (the (t_percent t)) of
             Inl e \<Rightarrow> Inl e
           | Inr w \<Rightarrow>
               (case percent_of oh (the (t_percent t)) of
                  Inl e \<Rightarrow> Inl e
                | Inr h \<Rightarrow>
                    (case img_resize L img (w, h) of
                       Inl e \<Rightarrow> Inl e
                     | Inr r \<Rightarrow> Inr (r, Some w, Some h))))
      | ExactMode \<Rightarrow>
          (case with_size (img_resize L) img (t_width t) (t_height t) of
             Inl e \<Rightarrow> Inl e
           | Inr r \<Rightarrow> Inr (r, t_width t, t_height t))
      | WidthOnly \<Rightarrow>
          (case scale_other (the (t_width t)) oh ow of
             Inl e \<Rightarrow> Inl e
           | Inr h \<Rightarrow>
               (case img_resize L img (the (t_width t), h) of
                  Inl e \<Rightarrow> Inl e
                | Inr r \<Rightarrow> Inr (r, t_width t, Some h)))
      | HeightOnly \<Rightarrow>
          (case scale_other (the (t_height t)) ow oh of
             Inl e \<Rightarrow> Inl e
           | Inr w \<Rightarrow>
               (case img_resize L img (w, the (t_height t)) of
                  Inl e \<Rightarrow> Inl e
                | Inr r \<Rightarrow> Inr (r, Some w, t_height t)))
      | AspectFit \<Rightarrow>
          (case with_size (img_thumbnail L) img (t_width t) (t_height t) of
             Inl e \<Rightarrow> Inl e
           | Inr r \<Rightarrow> Inr (r, Some (fst (img_size L r)), Some (snd (img_size L r))))
      | DefaultExact \<Rightarrow>
          (case with_size (img_resize L) img (t_width t) (t_height t) of
             Inl e \<Rightarrow> Inl e
           | Inr r \<Rightarrow> Inr (r, t_width t, t_height t)))"

text \<open>
  What a task returns. The source returns a line of text: the check mark line with the
  file name and \<open>original_width x original_height\<close>, \<open>width x height\<close> for \<open>Resized\<close>,
  the cross line with the file name and \<open>str(e)\<close> for \<open>Failed\<close>.
\<close>

datatype outcome =
    Resized string int int "int option" "int option"
  | Failed string exn

text \<open>The whole \<open>try\<close> block: open, convert when the mode is not RGB, resize, save.\<close>

definition attempt :: "'img library \<Rightarrow> task \<Rightarrow> exn + outcome" where
  "attempt L t =
     (case img_open L (input_path t) of
        Inl e \<Rightarrow> Inl e
      | Inr img0 \<Rightarrow>
          (case (if img_mode L img0 \<noteq> ''RGB'' then img_convert_rgb L img0 else Inr img0) of
             Inl e \<Rightarrow> Inl e
           | Inr img \<Rightarrow>
               (case resized_image L t img of
                  Inl e \<Rightarrow> Inl e
                | Inr (resized, w, h) \<Rightarrow>
                    (case img_save L resized (output_path t) of
                       Inl e \<Rightarrow> Inl e
                     | Inr _ \<Rightarrow>
                         Inr (Resized (basename (input_path t))
                                (fst (img_size L img)) (snd (img_size L img)) w h)))))"

definition resize_image :: "'img library \<Rightarrow> task \<Rightarrow> outcome" where
  "resize_image L t =
     (case attempt L t of
        Inr ok \<Rightarrow> ok
      | Inl e \<Rightarrow> Failed (basename (input_path t)) e)"


section \<open>The command line and \<open>main\<close>\<close>

text \<open>The parsed arguments; an option that was not given is \<open>None\<close>.\<close>

record args =
  a_input :: string
  a_output :: string
  a_percent :: "pyfloat option"
  a_width :: "int option"
  a_height :: "int option"
  a_exact :: bool
  a_aspect :: bool
  a_workers :: "int option"

text \<open>What \<open>main\<close> asks of the operating system.\<close>

record system =
  path_exists :: "string \<Rightarrow> bool"
  listdir :: "string \<Rightarrow> string list"
  cpu_count :: int

text \<open>One constructor for each \<open>print\<close> statement of \<open>main\<close>, with the values it formats.\<close>

datatype message =
    ErrInputMissing string
  | ErrPercent
  | ErrNoMethod
  | ErrBothFlags
  | ErrFlagsNeedBoth
  | ErrWidth
  | ErrHeight
  | NoImages
  | Found nat
  | ModePercent "pyfloat option"
  | ModeExactFlag
  | ModeFit
  | Target "int option" "int option"
  | Maximum "int option" "int option"
  | ModeWidth "int option"
  | ModeHeight "int option"
  | ModeDefault
  | UsingWorkers int
  | ResultsHeader
  | Result outcome
  | Completed string

fun is_error :: "message \<Rightarrow> bool" where
  "is_error (ErrInputMissing _) = True"
| "is_error ErrPercent = True"
| "is_error ErrNoMethod = True"
| "is_error ErrBothFlags = True"
| "is_error ErrFlagsNeedBoth = True"
| "is_error ErrWidth = True"
| "is_error ErrHeight = True"
| "is_error _ = False"

text \<open>
  What \<open>main\<close> does, in program order. \<open>PoolMap n tasks\<close> is the call
  \<open>pool.map(resize_image, tasks)\<close> on a pool of \<open>n\<close> processes: every decode and every
  write of an image happens inside it. \<open>Uncaught\<close> is an exception leaving \<open>main\<close>.
\<close>

datatype event =
    Print message
  | MakeDirs string
  | ListDir string
  | PoolMap int "task list"
  | Uncaught exn

text \<open>The checks under \<open># Validate arguments\<close>, in source order; the first that fails
  gives the message printed before \<open>return\<close>.\<close>

definition validate :: "args \<Rightarrow> message option" where
  "validate a =
     (if a_percent a \<noteq> None \<and> float_le_zero (the (a_percent a)) then Some ErrPercent
      else if a_percent a = None \<and> a_width a = None \<and> a_height a = None then Some ErrNoMethod
      else if a_exact a \<and> a_aspect a then Some ErrBothFlags
      else if (a_exact a \<or> a_aspect a) \<and> (a_width a = None \<or> a_height a = None)
        then Some ErrFlagsNeedBoth
      else if a_width a \<noteq> None \<and> the (a_width a) \<le> 0 then Some ErrWidth
      else if a_height a \<noteq> None \<and> the (a_height a) \<le> 0 then Some ErrHeight
      else None)"

text \<open>The lines under \<open># Display resize mode\<close>.\<close>

definition mode_lines :: "args \<Rightarrow> message list" where
  "mode_lines a =
     (if truthy_float (a_percent a) then [ModePercent (a_percent a)]
      else if a_exact a then [ModeExactFlag, Target (a_width a) (a_height a)]
      else if a_aspect a then [ModeFit, Maximum (a_width a) (a_height a)]
      else if truthy_int (a_width a) \<and> \<not> truthy_int (a_height a) then [ModeWidth (a_width a)]
      else if truthy_int (a_height a) \<and> \<not> truthy_int (a_width a) then [ModeHeight (a_height a)]
      else [ModeDefault, Target (a_width a) (a_height a)])"

text \<open>\<open>num_workers = args.workers if args.workers else cpu_count()\<close>.\<close>

definition num_workers :: "system \<Rightarrow> args \<Rightarrow> int" where
  "num_workers S a = (if truthy_int (a_workers a) then the (a_workers a) else cpu_count S)"

text \<open>The list comprehension that builds one argument tuple for each file.\<close>

definition make_task :: "args \<Rightarrow> string \<Rightarrow> task" where
  "make_task a filename =
     \<lparr> input_path = path_join (a_input a) filename,
       output_path = path_join (a_output a) filename,
       t_width = a_width a,
       t_height = a_height a,
       t_percent = a_percent a,
       maintain_aspect = a_aspect a,
       t_exact = a_exact a \<rparr>"

definition tasks :: "args \<Rightarrow> string list \<Rightarrow> task list" where
  "tasks a image_files = map (make_task a) image_files"

text \<open>
  \<open>pool.map\<close> returns the results in the order of the tasks, whichever worker ran them
  and whenever; a task shares nothing with another one.
\<close>

definition pool_map :: "(task \<Rightarrow> outcome) \<Rightarrow> task list \<Rightarrow> outcome list" where
  "pool_map f ts = map f ts"

text \<open>
  The batch once the pool size is known. \<open>Pool(processes=n)\<close> raises \<open>ValueError\<close> for
  \<open>n < 1\<close>, and nothing in \<open>main\<close> catches it.
\<close>

definition run_pool :: "'img library \<Rightarrow> args \<Rightarrow> int \<Rightarrow> string list \<Rightarrow> event list" where
  "run_pool L a n image_files =
     (if n < 1 then [Uncaught ValueError]
      else PoolMap n (tasks a image_files)
           # Print ResultsHeader
           # map (\<lambda>r. Print (Result r)) (pool_map (resize_image L) (tasks a image_files))
           @ [Print (Completed (a_output a))])"

definition main :: "system \<Rightarrow> 'img library \<Rightarrow> args \<Rightarrow> event list" where
  "main S L a =
     (if \<not> path_exists S (a_input a) then [Print (ErrInputMissing (a_input a))]
      else case validate a of
        Some err \<Rightarrow> [Print err]
      | None \<Rightarrow>
          MakeDirs (a_output a) # ListDir (a_input a) #
          (let image_files = get_image_files (listdir S (a_input a)) in
           if image_files = [] then [Print NoImages]
           else Print (Found (length image_files))
                # map Print (mode_lines a)
                @ Print (UsingWorkers (num_workers S a))
                # run_pool L a (num_workers S a) image_files))"


text \<open>The outcomes that a run printed, in the order of printing.\<close>

fun printed_result :: "event \<Rightarrow> outcome list" where
  "printed_result (Print (Result r)) = [r]"
| "printed_result _ = []"

definition results_of :: "event list \<Rightarrow> outcome list" where
  "results_of evs = concat (map printed_result evs)"

text \<open>Whether a run got as far as touching the file system.\<close>

fun touches_files :: "event \<Rightarrow> bool" where
  "touches_files (MakeDirs _) = True"
| "touches_files (ListDir _) = True"
| "touches_files (PoolMap _ _) = True"
| "touches_files _ = False"

section \<open>The specification's reading\<close>

text \<open>
  The rejection conditions as the specification lists them: no sizing method, a
  percentage at most zero, a supplied width or height at most zero, both flags, or a
  flag without both width and height.
\<close>

definition spec_rejects :: "args \<Rightarrow> bool" where
  "spec_rejects a \<longleftrightarrow>
     (a_percent a = None \<and> a_width a = None \<and> a_height a = None)
     \<or> (case a_percent a of None \<Rightarrow> False | Some p \<Rightarrow> float_le_zero p)
     \<or> (case a_width a of None \<Rightarrow> False | Some w \<Rightarrow> w \<le> 0)
     \<or> (case a_height a of None \<Rightarrow> False | Some h \<Rightarrow> h \<le> 0)
     \<or> (a_exact a \<and> a_aspect a)
     \<or> ((a_exact a \<or> a_aspect a) \<and> \<not> (a_width a \<noteq> None \<and> a_height a \<noteq> None))"

text \<open>
  The selection order of the specification's Mode Resolver, where a parameter counts
  as soon as it is given.
\<close>

definition spec_mode :: "args \<Rightarrow> mode" where
  "spec_mode a =
     (if a_percent a \<noteq> None then PercentMode
      else if a_exact a then ExactMode
      else if a_width a \<noteq> None \<and> a_height a = None then WidthOnly
      else if a_height a \<noteq> None \<and> a_width a = None then HeightOnly
      else if a_aspect a then AspectFit
      else DefaultExact)"

text \<open>
  Modelled from the spec: what the library's \<open>thumbnail\<close> routine leaves, which is not
  part of the repository. The specification fixes that the image is scaled down, never
  up, by the factor \<open>min(targetW/W, targetH/H)\<close> so that it fits within the bounds with
  its aspect ratio kept, and that the output is whatever the fit produces; how the
  scaled axis is rounded it leaves open (its scenario gives about 667 by 500 for 800 by
  600 within 1000 by 500, its note speaks of flooring). So for an image and bounds of
  positive size: an image that fits is left as it is; otherwise the axis with the
  smaller factor takes its bound, and the other axis is the exactly scaled value rounded
  to one of its two neighbouring integers, and at least 1.
\<close>

definition near :: "int \<Rightarrow> int \<Rightarrow> int \<Rightarrow> bool" where
  "near N D v \<longleftrightarrow> 1 \<le> v \<and> N div D \<le> v \<and> v * D < N + D"



section \<open>A small concrete world\<close>

text \<open>
  A library in which an image is nothing but its size: every file decodes to an RGB
  image of the given size, resizing to a non-positive size is refused, \<open>thumbnail\<close>
  scales down to fit and rounds the scaled axis to the nearest pixel (at least 1), and
  saving succeeds.
\<close>

definition nearest :: "int \<Rightarrow> int \<Rightarrow> int" where
  "nearest N D = max 1 ((2 * N + D) div (2 * D))"

definition fit_size :: "int \<times> int \<Rightarrow> int \<times> int \<Rightarrow> int \<times> int" where
  "fit_size sz bound =
     (let (W, H) = sz; (bw, bh) = bound in
      if W \<le> bw \<and> H \<le> bh then (W, H)
      else if bh * W \<le> bw * H then (nearest (bh * W) H, bh)
      else (bw, nearest (bw * H) W))"

definition plain_library :: "int \<times> int \<Rightarrow> (int \<times> int) library" where
  "plain_library sz =
     \<lparr> img_open = (\<lambda>path. Inr sz),
       img_mode = (\<lambda>img. ''RGB''),
       img_size = (\<lambda>img. img),
       img_convert_rgb = (\<lambda>img. Inr img),
       img_resize = (\<lambda>img new.
          if 0 < fst new \<and> 0 < snd new then Inr new
          else Inl (LibraryError ''height and width must be > 0'')),
       img_thumbnail = (\<lambda>img bound. Inr (fit_size img bound)),
       img_save = (\<lambda>img path. Inr ()) \<rparr>"


definition plain_system :: "string list \<Rightarrow> system" where
  "plain_system entries =
     \<lparr> path_exists = (\<lambda>path. True), listdir = (\<lambda>path. entries), cpu_count = 4 \<rparr>"

definition no_args :: args where
  "no_args =
     \<lparr> a_input = ''in'', a_output = ''out'', a_percent = None, a_width = None,
       a_height = None, a_exact = False, a_aspect = False, a_workers = None \<rparr>"


section \<open>File enumeration\<close>

lemma get_image_files_member:
  "file \<in> set (get_image_files entries) \<longleftrightarrow>
     file \<in> set entries \<and> suffix file \<in> {''.jpg'', ''.jpeg'', ''.JPG'', ''.JPEG''}"
  by (simp add: get_image_files_def extensions_def)

text \<open>
  C5. The specification has the enumeration match \<open>.jpg\<close>/\<open>.jpeg\<close> without regard to
  case, so that \<open>.Jpg\<close> and \<open>.JPeg\<close> are taken. \<open>get_image_files\<close> compares the suffix
  with four spellings only: on a folder holding \<open>a.Jpg\<close>, \<open>b.JPeg\<close>, \<open>c.jpg\<close> and
  \<open>d.JPEG\<close> it returns the last two and leaves the mixed-case names out.
\<close>

theorem C5_mixed_case_suffix_skipped:
  "get_image_files [''a.Jpg'', ''b.JPeg'', ''c.jpg'', ''d.JPEG''] = [''c.jpg'', ''d.JPEG'']"
  by (simp add: get_image_files_def suffix_def extensions_def)


section \<open>Validation and mode selection\<close>

lemma validate_None_iff: "validate a = None \<longleftrightarrow> \<not> spec_rejects a"
  unfolding validate_def spec_rejects_def
  by (cases "a_percent a"; cases "a_width a"; cases "a_height a"; simp)

lemma validate_NoneD:
  assumes "validate a = None"
  shows "a_percent a = Some p \<Longrightarrow> \<not> float_le_zero p"
    and "a_width a = Some w \<Longrightarrow> 0 < w"
    and "a_height a = Some h \<Longrightarrow> 0 < h"
    and "\<not> (a_exact a \<and> a_aspect a)"
    and "a_exact a \<or> a_aspect a \<Longrightarrow> a_width a \<noteq> None \<and> a_height a \<noteq> None"
    and "a_percent a \<noteq> None \<or> a_width a \<noteq> None \<or> a_height a \<noteq> None"
  using assms unfolding validate_None_iff spec_rejects_def by auto

lemma truthy_validated:
  assumes "validate a = None"
  shows "truthy_float (a_percent a) \<longleftrightarrow> a_percent a \<noteq> None"
    and "truthy_int (a_width a) \<longleftrightarrow> a_width a \<noteq> None"
    and "truthy_int (a_height a) \<longleftrightarrow> a_height a \<noteq> None"
proof -
  show "truthy_float (a_percent a) \<longleftrightarrow> a_percent a \<noteq> None"
  proof (cases "a_percent a")
    case None then show ?thesis by simp
  next
    case (Some p)
    then show ?thesis using validate_NoneD(1) [OF assms Some] by (cases p) auto
  qed
  show "truthy_int (a_width a) \<longleftrightarrow> a_width a \<noteq> None"
    using validate_NoneD(2) [OF assms] by (cases "a_width a") auto
  show "truthy_int (a_height a) \<longleftrightarrow> a_height a \<noteq> None"
    using validate_NoneD(3) [OF assms] by (cases "a_height a") auto
qed

lemma branch_validated:
  assumes "validate a = None"
  shows "branch (make_task a f) = spec_mode a"
  by (simp add: branch_def spec_mode_def make_task_def truthy_validated [OF assms])

lemma validate_is_error: "validate a = Some m \<Longrightarrow> is_error m"
  by (auto simp: validate_def split: if_splits)

lemma spec_mode_default:
  assumes "validate a = None" and "spec_mode a = DefaultExact"
  shows "a_width a \<noteq> None \<and> a_height a \<noteq> None \<and> \<not> a_exact a \<and> \<not> a_aspect a"
proof -
  have 1: "a_percent a = None" using assms(2) by (simp add: spec_mode_def split: if_splits)
  have 2: "\<not> a_exact a" using assms(2) by (simp add: spec_mode_def split: if_splits)
  have 3: "\<not> a_aspect a" using assms(2) by (simp add: spec_mode_def split: if_splits)
  have 4: "a_width a \<noteq> None \<longleftrightarrow> a_height a \<noteq> None"
    using assms(2) by (auto simp: spec_mode_def split: if_splits)
  show ?thesis using 1 2 3 4 validate_NoneD(6) [OF assms(1)] by blast
qed

lemma main_missing_input:
  "\<not> path_exists S (a_input a) \<Longrightarrow> main S L a = [Print (ErrInputMissing (a_input a))]"
  by (simp add: main_def)

lemma main_invalid:
  "path_exists S (a_input a) \<Longrightarrow> validate a = Some m \<Longrightarrow> main S L a = [Print m]"
  by (simp add: main_def)

lemma main_valid:
  "path_exists S (a_input a) \<Longrightarrow> validate a = None \<Longrightarrow>
   main S L a = MakeDirs (a_output a) # ListDir (a_input a) #
     (if get_image_files (listdir S (a_input a)) = [] then [Print NoImages]
      else Print (Found (length (get_image_files (listdir S (a_input a)))))
           # map Print (mode_lines a)
           @ Print (UsingWorkers (num_workers S a))
           # run_pool L a (num_workers S a) (get_image_files (listdir S (a_input a))))"
  by (simp add: main_def Let_def)

text \<open>
  C1. For every validated configuration the branch that \<open>resize_image\<close> takes is the one
  the specification's first-match cascade selects: percent, exact, width-only,
  height-only, bounded fit, default. In particular a given percentage wins over any
  width, height or flag, and the default branch is reached only with both width and
  height given and no flag.
\<close>

theorem C1_mode_cascade:
  assumes "validate a = None"
  shows "branch (make_task a f) = spec_mode a
    \<and> (a_percent a \<noteq> None \<longrightarrow> branch (make_task a f) = PercentMode)
    \<and> (branch (make_task a f) = DefaultExact \<longrightarrow>
         a_width a \<noteq> None \<and> a_height a \<noteq> None \<and> \<not> a_exact a \<and> \<not> a_aspect a)"
proof (intro conjI impI)
  show b: "branch (make_task a f) = spec_mode a"
    using assms by (rule branch_validated)
  show "branch (make_task a f) = PercentMode" if "a_percent a \<noteq> None"
    using that by (simp add: b spec_mode_def)
  assume "branch (make_task a f) = DefaultExact"
  then have d: "spec_mode a = DefaultExact" by (simp add: b)
  show "a_width a \<noteq> None" "a_height a \<noteq> None" "\<not> a_exact a" "\<not> a_aspect a"
    using spec_mode_default [OF assms d] by blast+
qed

theorem C1_mode_cascade_witness:
  "validate (no_args\<lparr>a_percent := Some (Fin 50), a_width := Some 100\<rparr>) = None
   \<and> branch (make_task (no_args\<lparr>a_percent := Some (Fin 50), a_width := Some 100\<rparr>) ''a.jpg'')
       = PercentMode"
proof -
  have v: "validate (no_args\<lparr>a_percent := Some (Fin 50), a_width := Some 100\<rparr>) = None"
    by (simp add: validate_def no_args_def)
  have pc: "a_percent (no_args\<lparr>a_percent := Some (Fin 50), a_width := Some 100\<rparr>) \<noteq> None"
    by simp
  show ?thesis
    using v pc C1_mode_cascade [OF v, of "''a.jpg''"] by blast
qed

text \<open>
  C3. A configuration that the specification rejects makes \<open>main\<close> print one error and
  return: no directory is created or listed and no task is run. A configuration that
  passes every check, on an input folder that exists, goes on to create the output
  folder and to enumerate the input folder.
\<close>

theorem C3_validation:
  "(spec_rejects a \<longrightarrow>
      (\<exists>m. is_error m \<and> main S L a = [Print m]) \<and> \<not> list_ex touches_files (main S L a))
   \<and> (\<not> spec_rejects a \<longrightarrow> path_exists S (a_input a) \<longrightarrow>
      take 2 (main S L a) = [MakeDirs (a_output a), ListDir (a_input a)])"
proof (intro conjI impI)
  assume r: "spec_rejects a"
  then obtain m where m: "validate a = Some m"
    using validate_None_iff [of a] by (cases "validate a") simp_all
  then have e: "is_error m" by (rule validate_is_error)
  show *: "\<exists>m. is_error m \<and> main S L a = [Print m]"
  proof (cases "path_exists S (a_input a)")
    case True
    then show ?thesis using main_invalid [OF True m] e by blast
  next
    case False
    have "is_error (ErrInputMissing (a_input a))" by simp
    then show ?thesis using main_missing_input [OF False] by blast
  qed
  then obtain m' where "main S L a = [Print m']" by blast
  then show "\<not> list_ex touches_files (main S L a)" by simp
next
  assume "\<not> spec_rejects a" and p: "path_exists S (a_input a)"
  then have "validate a = None" by (simp add: validate_None_iff)
  then show "take 2 (main S L a) = [MakeDirs (a_output a), ListDir (a_input a)]"
    by (simp add: main_valid [OF p])
qed


theorem C3_validation_witness:
  "spec_rejects (no_args\<lparr>a_percent := Some (Fin 0)\<rparr>)
   \<and> \<not> list_ex touches_files (main (plain_system []) (plain_library (1, 1))
         (no_args\<lparr>a_percent := Some (Fin 0)\<rparr>))
   \<and> \<not> spec_rejects (no_args\<lparr>a_width := Some 400\<rparr>)
   \<and> take 2 (main (plain_system []) (plain_library (1, 1)) (no_args\<lparr>a_width := Some 400\<rparr>))
       = [MakeDirs ''out'', ListDir ''in'']"
proof -
  have r: "spec_rejects (no_args\<lparr>a_percent := Some (Fin 0)\<rparr>)"
    by (simp add: spec_rejects_def no_args_def)
  have n: "\<not> spec_rejects (no_args\<lparr>a_width := Some 400\<rparr>)"
    by (simp add: spec_rejects_def no_args_def)
  have p: "path_exists (plain_system []) (a_input (no_args\<lparr>a_width := Some 400\<rparr>))"
    by (simp add: plain_system_def)
  have o: "a_output (no_args\<lparr>a_width := Some 400\<rparr>) = ''out''"
    "a_input (no_args\<lparr>a_width := Some 400\<rparr>) = ''in''"
    by (simp_all add: no_args_def)
  show ?thesis
    using r n p
      C3_validation [of "no_args\<lparr>a_percent := Some (Fin 0)\<rparr>" "plain_system []" "plain_library (1, 1)"]
      C3_validation [of "no_args\<lparr>a_width := Some 400\<rparr>" "plain_system []" "plain_library (1, 1)"]
    unfolding o by blast
qed

section \<open>The worker count\<close>

lemma validate_cong:
  assumes "a_percent a = a_percent b" "a_width a = a_width b" "a_height a = a_height b"
    "a_exact a = a_exact b" "a_aspect a = a_aspect b"
  shows "validate a = validate b"
  unfolding validate_def assms by (rule refl)

lemma mode_lines_cong:
  assumes "a_percent a = a_percent b" "a_width a = a_width b" "a_height a = a_height b"
    "a_exact a = a_exact b" "a_aspect a = a_aspect b"
  shows "mode_lines a = mode_lines b"
  unfolding mode_lines_def assms by (rule refl)

lemma validate_workers: "validate (a\<lparr>a_workers := w\<rparr>) = validate a"
  by (rule validate_cong) simp_all

lemma mode_lines_workers: "mode_lines (a\<lparr>a_workers := w\<rparr>) = mode_lines a"
  by (rule mode_lines_cong) simp_all

lemma make_task_workers: "make_task (a\<lparr>a_workers := w\<rparr>) = make_task a"
  by (simp add: make_task_def fun_eq_iff)

lemma run_pool_workers: "run_pool L (a\<lparr>a_workers := w\<rparr>) n fs = run_pool L a n fs"
  by (simp add: run_pool_def tasks_def make_task_workers)

lemma main_workers:
  assumes "num_workers S (a\<lparr>a_workers := w\<rparr>) = num_workers S (a\<lparr>a_workers := w'\<rparr>)"
  shows "main S L (a\<lparr>a_workers := w\<rparr>) = main S L (a\<lparr>a_workers := w'\<rparr>)"
proof (cases "path_exists S (a_input a)")
  case False
  then show ?thesis by (simp add: main_missing_input)
next
  case True
  show ?thesis
  proof (cases "validate a")
    case (Some m)
    then show ?thesis using True by (simp add: main_invalid validate_workers)
  next
    case None
    then show ?thesis
      using True assms
      by (simp add: main_valid validate_workers mode_lines_workers run_pool_workers)
  qed
qed

text \<open>
  C10. With \<open>--workers 0\<close> the program neither rejects the value nor uses zero workers:
  the worker count is the CPU count, and the whole run is the one obtained when
  \<open>--workers\<close> is left out.
\<close>

theorem C10_zero_workers_falls_back:
  "num_workers S (a\<lparr>a_workers := Some 0\<rparr>) = cpu_count S
   \<and> num_workers S (a\<lparr>a_workers := Some 0\<rparr>) = num_workers S (a\<lparr>a_workers := None\<rparr>)
   \<and> main S L (a\<lparr>a_workers := Some 0\<rparr>) = main S L (a\<lparr>a_workers := None\<rparr>)"
proof -
  have z: "num_workers S (a\<lparr>a_workers := Some 0\<rparr>) = cpu_count S"
    by (simp add: num_workers_def)
  have n: "num_workers S (a\<lparr>a_workers := None\<rparr>) = cpu_count S"
    by (simp add: num_workers_def)
  have "main S L (a\<lparr>a_workers := Some 0\<rparr>) = main S L (a\<lparr>a_workers := None\<rparr>)"
    by (rule main_workers) (simp add: z n)
  then show ?thesis by (simp add: z n)
qed


section \<open>Default mode and exact mode\<close>

lemma resized_image_exact:
  "branch t = ExactMode \<Longrightarrow> resized_image L t img =
     (case with_size (img_resize L) img (t_width t) (t_height t) of
        Inl e \<Rightarrow> Inl e | Inr r \<Rightarrow> Inr (r, t_width t, t_height t))"
  by (simp add: resized_image_def split: prod.split)

lemma resized_image_default:
  "branch t = DefaultExact \<Longrightarrow> resized_image L t img =
     (case with_size (img_resize L) img (t_width t) (t_height t) of
        Inl e \<Rightarrow> Inl e | Inr r \<Rightarrow> Inr (r, t_width t, t_height t))"
  by (simp add: resized_image_def split: prod.split)

lemma resized_image_percent:
  assumes "branch t = PercentMode" "branch t' = PercentMode" "t_percent t = t_percent t'"
  shows "resized_image L t img = resized_image L t' img"
  unfolding resized_image_def assms by simp

lemma validate_exact_on:
  assumes "validate a = None" "a_width a \<noteq> None" "a_height a \<noteq> None" "\<not> a_aspect a"
  shows "validate (a\<lparr>a_exact := True\<rparr>) = None"
proof -
  have "\<not> spec_rejects a" using assms(1) by (simp add: validate_None_iff)
  then have "\<not> spec_rejects (a\<lparr>a_exact := True\<rparr>)"
    using assms(2-4) by (simp add: spec_rejects_def)
  then show ?thesis by (simp add: validate_None_iff)
qed


text \<open>
  C8. For a validated configuration with both width and height given and no flag, the
  resize performed is the one performed when \<open>--exact\<close> is added; without a percentage
  the task takes the default branch, the flagged one the exact branch, and both call
  the library with the requested \<open>(width, height)\<close> unchanged.
\<close>

theorem C8_default_same_as_exact:
  assumes v: "validate a = None"
    and w: "a_width a = Some w" and h: "a_height a = Some h"
    and nf: "\<not> a_exact a" "\<not> a_aspect a"
  shows "validate (a\<lparr>a_exact := True\<rparr>) = None
    \<and> resized_image L (make_task a f) img
        = resized_image L (make_task (a\<lparr>a_exact := True\<rparr>) f) img
    \<and> (a_percent a = None \<longrightarrow>
         branch (make_task a f) = DefaultExact
         \<and> branch (make_task (a\<lparr>a_exact := True\<rparr>) f) = ExactMode
         \<and> resized_image L (make_task a f) img =
             (case img_resize L img (w, h) of
                Inl e \<Rightarrow> Inl e | Inr r \<Rightarrow> Inr (r, Some w, Some h)))"
proof -
  let ?a' = "a\<lparr>a_exact := True\<rparr>"
  let ?t = "make_task a f" and ?t' = "make_task ?a' f"
  have v': "validate ?a' = None"
    using v w h nf(2) by (intro validate_exact_on) simp_all
  have b: "branch ?t = spec_mode a" using v by (rule branch_validated)
  have b': "branch ?t' = spec_mode ?a'" using v' by (rule branch_validated)
  have fields: "t_width ?t = Some w" "t_height ?t = Some h"
    "t_width ?t' = Some w" "t_height ?t' = Some h" "t_percent ?t = t_percent ?t'"
    by (simp_all add: make_task_def w h)
  have same: "resized_image L ?t img = resized_image L ?t' img"
  proof (cases "a_percent a")
    case (Some p)
    have "branch ?t = PercentMode" "branch ?t' = PercentMode"
      by (simp_all add: b b' spec_mode_def Some)
    then show ?thesis using fields(5) by (rule resized_image_percent)
  next
    case None
    have d0: "branch ?t = DefaultExact" and e0: "branch ?t' = ExactMode"
      by (simp_all add: b b' spec_mode_def None w h nf)
    show ?thesis
      unfolding resized_image_default [OF d0] resized_image_exact [OF e0] fields
      by (rule refl)
  qed
  have verbatim: "branch ?t = DefaultExact \<and> branch ?t' = ExactMode
      \<and> resized_image L ?t img =
         (case img_resize L img (w, h) of Inl e \<Rightarrow> Inl e | Inr r \<Rightarrow> Inr (r, Some w, Some h))"
    if none: "a_percent a = None"
  proof -
    have d: "branch ?t = DefaultExact" and e: "branch ?t' = ExactMode"
      by (simp_all add: b b' spec_mode_def none w h nf)
    have "resized_image L ?t img =
         (case img_resize L img (w, h) of Inl e \<Rightarrow> Inl e | Inr r \<Rightarrow> Inr (r, Some w, Some h))"
      unfolding resized_image_default [OF d] fields by (simp add: with_size_def)
    then show ?thesis using d e by blast
  qed
  show ?thesis using v' same verbatim by blast
qed

theorem C8_default_same_as_exact_witness:
  "resized_image (plain_library (800, 600))
     (make_task (no_args\<lparr>a_width := Some 300, a_height := Some 200\<rparr>) ''a.jpg'') (800, 600)
   = Inr ((300, 200), Some 300, Some 200)
   \<and> resized_image (plain_library (800, 600))
     (make_task (no_args\<lparr>a_width := Some 300, a_height := Some 200, a_exact := True\<rparr>) ''a.jpg'')
     (800, 600)
   = Inr ((300, 200), Some 300, Some 200)"
proof -
  let ?a = "no_args\<lparr>a_width := Some 300, a_height := Some 200\<rparr>"
  have v: "validate ?a = None" by (simp add: validate_def no_args_def)
  have f: "a_width ?a = Some 300" "a_height ?a = Some 200" "\<not> a_exact ?a" "\<not> a_aspect ?a"
    "a_percent ?a = None"
    by (simp_all add: no_args_def)
  have r: "img_resize (plain_library (800, 600)) (800, 600) (300, 200) = Inr (300, 200)"
    by (simp add: plain_library_def)
  note T = C8_default_same_as_exact [OF v f(1-4), of "plain_library (800, 600)" "''a.jpg''" "(800, 600)"]
  let ?L = "plain_library (800, 600)"
  from T have eq: "resized_image ?L (make_task ?a ''a.jpg'') (800, 600)
      = resized_image ?L (make_task (?a\<lparr>a_exact := True\<rparr>) ''a.jpg'') (800, 600)"
    by blast
  from T f(5) have "resized_image ?L (make_task ?a ''a.jpg'') (800, 600)
      = (case img_resize ?L (800, 600) (300, 200) of
           Inl e \<Rightarrow> Inl e | Inr r \<Rightarrow> Inr (r, Some 300, Some 200))"
    by blast
  then have val: "resized_image ?L (make_task ?a ''a.jpg'') (800, 600)
      = Inr ((300, 200), Some 300, Some 200)"
    unfolding r by simp
  show ?thesis using eq val by simp
qed


section \<open>The batch: one outcome for each file\<close>







lemma results_of_Nil [simp]: "results_of [] = []"
  by (simp add: results_of_def)

lemma results_of_Cons [simp]: "results_of (ev # evs) = printed_result ev @ results_of evs"
  by (simp add: results_of_def)

lemma results_of_append [simp]: "results_of (xs @ ys) = results_of xs @ results_of ys"
  by (simp add: results_of_def)

lemma results_of_results [simp]:
  "results_of (map (\<lambda>x. Print (Result (g x))) xs) = map g xs"
  by (induction xs) simp_all

lemma results_of_mode_lines [simp]: "results_of (map Print (mode_lines a)) = []"
  by (simp add: mode_lines_def)

lemma results_of_run_pool:
  "1 \<le> n \<Longrightarrow> results_of (run_pool L a n fs) = map (\<lambda>f. resize_image L (make_task a f)) fs"
  by (simp add: run_pool_def pool_map_def tasks_def comp_def)

lemma results_of_main:
  assumes "path_exists S (a_input a)" "validate a = None" "1 \<le> num_workers S a"
  shows "results_of (main S L a) =
    map (\<lambda>f. resize_image L (make_task a f)) (get_image_files (listdir S (a_input a)))"
  by (simp add: main_valid [OF assms(1,2)] results_of_run_pool [OF assms(3)])





section \<open>Bounded fit\<close>













section \<open>Properties of binary64 rounding\<close>

lemma int_bitlen_bounds:
  fixes a :: int
  assumes "0 < a"
  shows "(2::rat) powi (bitlen a - 1) \<le> of_int a" and "of_int a < (2::rat) powi (bitlen a)"
proof -
  have b1: "1 \<le> bitlen a" using assms by (auto simp: bitlen_alt_def)
  have lo: "2 ^ nat (bitlen a - 1) \<le> a" and hi: "a < 2 ^ nat (bitlen a)"
    using bitlen_bounds [OF assms] by simp_all
  have "rat_of_int (2 ^ nat (bitlen a - 1)) \<le> of_int a"
    using lo by (simp only: of_int_le_iff)
  then show "(2::rat) powi (bitlen a - 1) \<le> of_int a"
    using b1 by (simp add: power_int_def)
  have "rat_of_int a < of_int (2 ^ nat (bitlen a))"
    using hi by (simp only: of_int_less_iff)
  then show "of_int a < (2::rat) powi (bitlen a)"
    using b1 by (simp add: power_int_def)
qed

lemma ilog2_bounds:
  assumes "0 < x"
  shows "2 powi (ilog2 x) \<le> x" and "x < 2 powi (ilog2 x + 1)"
proof -
  obtain a b where q: "quotient_of x = (a, b)" by (cases "quotient_of x")
  have b: "0 < b" using q by (rule quotient_of_denom_pos)
  have x: "x = of_int a / of_int b" using q by (rule quotient_of_div)
  have a: "0 < a" using assms b unfolding x by (simp add: zero_less_divide_iff)
  define d where "d = bitlen a - bitlen b"
  have il: "ilog2 x = (if 2 powi d \<le> x then d else d - 1)"
    by (simp add: ilog2_def q d_def)
  note A = int_bitlen_bounds [OF a] and B = int_bitlen_bounds [OF b]
  have rb: "0 < rat_of_int b" using b by simp
  have "x < 2 powi (bitlen a) / 2 powi (bitlen b - 1)"
    unfolding x using A(2) B(1) rb a
    by (intro frac_less) simp_all
  also have "\<dots> = 2 powi (d + 1)"
    by (simp add: d_def power_int_diff [symmetric] algebra_simps)
  finally have hi: "x < 2 powi (d + 1)" .
  have "2 powi (bitlen a - 1) / 2 powi (bitlen b) < x"
    unfolding x using A(1) B(2) rb a
    by (intro frac_less2) simp_all
  moreover have "(2::rat) powi (bitlen a - 1) / 2 powi (bitlen b) = 2 powi (d - 1)"
    by (simp add: d_def power_int_diff [symmetric] algebra_simps)
  ultimately have lo: "2 powi (d - 1) < x" by simp
  show "2 powi (ilog2 x) \<le> x" using il lo by (simp add: less_imp_le)
  show "x < 2 powi (ilog2 x + 1)" using il hi by (auto simp: not_le)
qed

lemma powi_lt_imp_lt:
  fixes m n :: int
  assumes "(2::rat) powi m < 2 powi n"
  shows "m < n"
proof (rule ccontr)
  assume "\<not> m < n"
  then have "n \<le> m" by simp
  then have "(2::rat) powi n \<le> 2 powi m" by (intro power_int_increasing) simp_all
  then show False using assms by simp
qed

lemma ilog2_unique:
  assumes "0 < x" "2 powi e \<le> x" "x < 2 powi (e + 1)"
  shows "ilog2 x = e"
proof -
  note I = ilog2_bounds [OF assms(1)]
  have "(2::rat) powi e < 2 powi (ilog2 x + 1)" using assms(2) I(2) by simp
  then have 1: "e < ilog2 x + 1" by (rule powi_lt_imp_lt)
  have "(2::rat) powi (ilog2 x) < 2 powi (e + 1)" using assms(3) I(1) by simp
  then have 2: "ilog2 x < e + 1" by (rule powi_lt_imp_lt)
  show ?thesis using 1 2 by simp
qed

lemma rhe_error: "\<bar>rat_of_int (round_half_even y) - y\<bar> \<le> 1 / 2"
proof -
  define f where "f = y - of_int \<lfloor>y\<rfloor>"
  have f: "0 \<le> f" "f < 1" unfolding f_def by linarith+
  have y: "y = of_int \<lfloor>y\<rfloor> + f" by (simp add: f_def)
  have r: "round_half_even y =
      (if f < 1 / 2 then \<lfloor>y\<rfloor> else if 1 / 2 < f then \<lfloor>y\<rfloor> + 1
       else if even \<lfloor>y\<rfloor> then \<lfloor>y\<rfloor> else \<lfloor>y\<rfloor> + 1)"
    by (simp add: round_half_even_def Let_def f_def)
  have "rat_of_int (round_half_even y) - y = - f \<or> rat_of_int (round_half_even y) - y = 1 - f"
    unfolding r by (subst (3 6) y) auto
  moreover have "rat_of_int (round_half_even y) - y = - f \<Longrightarrow> f \<le> 1 / 2"
    unfolding r by (subst (asm) (3) y) (auto split: if_splits)
  moreover have "rat_of_int (round_half_even y) - y = 1 - f \<Longrightarrow> 1 / 2 \<le> f"
    unfolding r by (subst (asm) (3) y) (auto split: if_splits)
  ultimately show ?thesis using f by (auto simp: abs_if)
qed

lemma rhe_of_int [simp]: "round_half_even (of_int k) = k"
  by (simp add: round_half_even_def)

lemma rhe_ge: "rat_of_int lo \<le> y \<Longrightarrow> lo \<le> round_half_even y"
proof -
  assume "rat_of_int lo \<le> y"
  then have "lo \<le> \<lfloor>y\<rfloor>" by (simp add: le_floor_iff)
  then show ?thesis by (auto simp: round_half_even_def Let_def)
qed

lemma rhe_le: "y \<le> rat_of_int hi \<Longrightarrow> round_half_even y \<le> hi"
proof (cases "y = of_int hi")
  case True then show ?thesis by simp
next
  case False
  assume "y \<le> rat_of_int hi"
  with False have "y < of_int hi" by simp
  then have "\<lfloor>y\<rfloor> < hi" by (simp add: floor_less_iff)
  then show ?thesis by (auto simp: round_half_even_def Let_def)
qed

lemma powi_split: "(2::rat) powi (e + 1) = 2 powi (e - 52) * 2 ^ 53"
proof -
  have "e + 1 = (e - 52) + 53" by simp
  then have "(2::rat) powi (e + 1) = 2 powi ((e - 52) + 53)" by (rule arg_cong)
  also have "\<dots> = 2 powi (e - 52) * 2 powi 53" by (subst power_int_add) simp_all
  finally show ?thesis by simp
qed

lemma powi_split': "(2::rat) powi e = 2 powi (e - 52) * 2 ^ 52"
proof -
  have "(2::rat) powi e = 2 powi ((e - 52) + 52)" by simp
  also have "\<dots> = 2 powi (e - 52) * 2 powi 52" by (subst power_int_add) simp_all
  finally show ?thesis by simp
qed

lemma powi_half: "(2::rat) powi (e - 52) / 2 = 2 powi (e - 53)"
proof -
  have "(2::rat) powi (e - 52) = 2 powi ((e - 53) + 1)" by simp
  also have "\<dots> = 2 powi (e - 53) * 2 powi 1" by (subst power_int_add) simp_all
  finally show ?thesis by simp
qed

lemma fl_normal:
  assumes x: "0 < x" and lo: "2 powi e \<le> x" and hi: "x < 2 powi (e + 1)"
    and e: "- 1022 \<le> e" "e \<le> 1022"
  shows "fl x = Fin (of_int (round_half_even (x / 2 powi (e - 52))) * 2 powi (e - 52))"
    and "2 powi e \<le> rat_of_int (round_half_even (x / 2 powi (e - 52))) * 2 powi (e - 52)"
    and "rat_of_int (round_half_even (x / 2 powi (e - 52))) * 2 powi (e - 52) \<le> 2 powi (e + 1)"
    and "\<bar>rat_of_int (round_half_even (x / 2 powi (e - 52))) * 2 powi (e - 52) - x\<bar>
          \<le> 2 powi (e - 53)"
proof -
  define q where "q = e - 52"
  define m where "m = round_half_even (x / 2 powi q)"
  have qpos: "(0::rat) < 2 powi q" by simp
  have p53: "(2::rat) powi (e + 1) = 2 powi q * 2 ^ 53" unfolding q_def by (rule powi_split)
  have p52: "(2::rat) powi e = 2 powi q * 2 ^ 52" unfolding q_def by (rule powi_split')
  have ph: "(2::rat) powi q / 2 = 2 powi (e - 53)" unfolding q_def by (rule powi_half)
  have il: "ilog2 x = e" using x lo hi by (rule ilog2_unique)
  have "x / 2 powi q < 2 ^ 53"
    using hi qpos unfolding p53 by (simp add: field_simps)
  then have "x / 2 powi q \<le> rat_of_int (2 ^ 53)" by simp
  then have mhi: "m \<le> 2 ^ 53" unfolding m_def by (rule rhe_le)
  have "2 ^ 52 \<le> x / 2 powi q"
    using lo qpos unfolding p52 by (simp add: field_simps)
  then have "rat_of_int (2 ^ 52) \<le> x / 2 powi q" by simp
  then have mlo: "2 ^ 52 \<le> m" unfolding m_def by (rule rhe_ge)
  have "rat_of_int m \<le> of_int (2 ^ 53)" using mhi by (simp only: of_int_le_iff)
  then have "rat_of_int m * 2 powi q \<le> 2 ^ 53 * 2 powi q"
    using qpos by (intro mult_right_mono) simp_all
  then show rhi: "rat_of_int (round_half_even (x / 2 powi (e - 52))) * 2 powi (e - 52)
      \<le> 2 powi (e + 1)"
    unfolding p53 unfolding m_def q_def by (simp add: mult.commute)
  have "rat_of_int (2 ^ 52) \<le> of_int m" using mlo by (simp only: of_int_le_iff)
  then have "2 ^ 52 * 2 powi q \<le> rat_of_int m * 2 powi q"
    using qpos by (intro mult_right_mono) simp_all
  then show rlo: "2 powi e \<le> rat_of_int (round_half_even (x / 2 powi (e - 52))) * 2 powi (e - 52)"
    unfolding p52 unfolding m_def q_def by (simp add: mult.commute)
  have "\<bar>rat_of_int m - x / 2 powi q\<bar> \<le> 1 / 2" unfolding m_def by (rule rhe_error)
  then have "\<bar>rat_of_int m - x / 2 powi q\<bar> * 2 powi q \<le> 1 / 2 * 2 powi q"
    using qpos by (intro mult_right_mono) simp_all
  moreover have "\<bar>rat_of_int m - x / 2 powi q\<bar> * 2 powi q = \<bar>rat_of_int m * 2 powi q - x\<bar>"
  proof -
    have "\<bar>rat_of_int m - x / 2 powi q\<bar> * 2 powi q = \<bar>(rat_of_int m - x / 2 powi q) * 2 powi q\<bar>"
      using qpos by (simp add: abs_mult)
    also have "(rat_of_int m - x / 2 powi q) * 2 powi q = rat_of_int m * 2 powi q - x"
      using qpos by (simp add: field_simps)
    finally show ?thesis .
  qed
  ultimately show "\<bar>rat_of_int (round_half_even (x / 2 powi (e - 52))) * 2 powi (e - 52) - x\<bar>
      \<le> 2 powi (e - 53)"
    using ph unfolding m_def q_def by simp
  define B where "B = (2::rat) powi 1024"
  have "e + 1 \<le> 1024" using e by simp
  then have "(2::rat) powi (e + 1) \<le> 2 powi 1023"
    using e by (intro power_int_increasing) simp_all
  moreover have "(2::rat) powi 1023 < B"
    unfolding B_def by (rule power_int_strict_increasing) simp_all
  ultimately have "rat_of_int m * 2 powi q < B"
    using rhi unfolding m_def q_def by linarith
  moreover have "0 \<le> rat_of_int m * 2 powi q" using mlo by simp
  ultimately have no: "\<not> B \<le> \<bar>rat_of_int m * 2 powi q\<bar>" by linarith
  have mx: "max e (- 1022) - 52 = q" using e by (simp add: q_def)
  have x0: "x \<noteq> 0" and ax: "\<bar>x\<bar> = x" using x by simp_all
  have "fl x = (if B \<le> \<bar>rat_of_int m * 2 powi q\<bar> then (if 0 < x then PInf else NInf)
      else Fin (rat_of_int m * 2 powi q))"
    unfolding fl_def Let_def B_def m_def
    by (simp only: x0 if_False ax il mx)
  then show "fl x = Fin (of_int (round_half_even (x / 2 powi (e - 52))) * 2 powi (e - 52))"
    using no unfolding m_def q_def by (simp only: if_False)
qed

lemma fl_close:
  assumes lo: "2 powi (- 1022) \<le> x" and hi: "x < 2 powi 1023"
  obtains r where "fl x = Fin r" "\<bar>r - x\<bar> \<le> x / 2 ^ 53" "0 < r"
proof -
  have x: "0 < x" using lo zero_less_power_int [of "2::rat" "- 1022"] by linarith
  define e where "e = ilog2 x"
  note I = ilog2_bounds [OF x, folded e_def]
  have "(2::rat) powi e < 2 powi 1023" using I(1) hi by linarith
  then have e1: "e \<le> 1022" using powi_lt_imp_lt [of e 1023] by simp
  have "(2::rat) powi (- 1022) < 2 powi (e + 1)" using I(2) lo by linarith
  then have e2: "- 1022 \<le> e" using powi_lt_imp_lt [of "- 1022" "e + 1"] by simp
  note N = fl_normal [OF x I e2 e1]
  define r where "r = rat_of_int (round_half_even (x / 2 powi (e - 52))) * 2 powi (e - 52)"
  have "(2::rat) powi (e - 53) = 2 powi e / 2 powi 53"
    by (rule power_int_diff) simp
  also have "\<dots> \<le> x / 2 powi 53" using I(1) by (intro divide_right_mono) simp_all
  finally have "(2::rat) powi (e - 53) \<le> x / 2 ^ 53" by simp
  then have "\<bar>r - x\<bar> \<le> x / 2 ^ 53" using N(4) unfolding r_def by linarith
  moreover have "0 < r" using N(2) zero_less_power_int [of "2::rat" e] unfolding r_def by linarith
  moreover have "fl x = Fin r" using N(1) unfolding r_def .
  ultimately show ?thesis using that by blast
qed

lemma fl_close_mid:
  assumes lo: "1 / 2 ^ 64 \<le> x" and hi: "x \<le> 2 ^ 64"
  obtains r where "fl x = Fin r" "\<bar>r - x\<bar> \<le> x / 2 ^ 53" "0 < r"
proof -
  have "(2::rat) powi (- 1022) \<le> 2 powi (- 64)" by (intro power_int_increasing) simp_all
  also have "\<dots> = 1 / 2 ^ 64" by (simp add: power_int_minus_divide)
  finally have 1: "2 powi (- 1022) \<le> x" using lo by linarith
  have "(2::rat) powi 64 < 2 powi 1023" by (intro power_int_strict_increasing) simp_all
  moreover have "(2::rat) powi 64 = 2 ^ 64" by simp
  ultimately have 2: "x < 2 powi 1023" using hi by linarith
  from fl_close [OF 1 2] that show ?thesis by blast
qed

lemma fl_int:
  assumes "0 \<le> n" "n < 2 ^ 53"
  shows "fl (of_int n) = Fin (of_int n)"
proof (cases "n = 0")
  case True then show ?thesis by (simp add: fl_def)
next
  case False
  then have n: "0 < n" using assms(1) by simp
  then have x: "0 < rat_of_int n" by simp
  define e where "e = ilog2 (rat_of_int n)"
  note I = ilog2_bounds [OF x, folded e_def]
  have "rat_of_int n < of_int (2 ^ 53)" using assms(2) by (simp only: of_int_less_iff)
  then have "(2::rat) powi e < 2 powi 53" using I(1) by simp
  then have e1: "e \<le> 52" using powi_lt_imp_lt [of e 53] by simp
  have "rat_of_int 1 \<le> of_int n" using n by (simp only: of_int_le_iff)
  then have "(2::rat) powi 0 < 2 powi (e + 1)" using I(2) by simp
  then have e0: "0 \<le> e" using powi_lt_imp_lt [of 0 "e + 1"] by simp
  have e2: "- 1022 \<le> e" "e \<le> 1022" using e0 e1 by simp_all
  note N = fl_normal [OF x I e2]
  define k where "k = nat (52 - e)"
  have "(2::rat) powi (e - 52) = 2 powi (- int k)" using e1 by (simp add: k_def)
  also have "\<dots> = 1 / 2 ^ k" by (simp add: power_int_minus_divide)
  finally have q: "(2::rat) powi (e - 52) = 1 / 2 ^ k" .
  have d: "rat_of_int n / 2 powi (e - 52) = of_int (n * 2 ^ k)" unfolding q by simp
  have "round_half_even (rat_of_int n / 2 powi (e - 52)) = n * 2 ^ k"
    unfolding d by (rule rhe_of_int)
  then show ?thesis using N(1) unfolding q by simp
qed


section \<open>Single-dimension modes\<close>

lemma int_to_float_exact: "0 \<le> n \<Longrightarrow> n < 2 ^ 53 \<Longrightarrow> int_to_float n = Inr (Fin (of_int n))"
  by (simp add: int_to_float_def fl_int)

lemma trunc_pos: "0 \<le> r \<Longrightarrow> trunc r = \<lfloor>r\<rfloor>"
  by (simp add: trunc_def)

lemma scale_other_close:
  assumes pos: "0 < W" "0 < H" "0 < w"
    and small: "W < 2 ^ 51" "w * H < 2 ^ 51"
  obtains b where "scale_other w H W = Inr \<lfloor>b\<rfloor>" "0 < b"
    "\<bar>b - rat_of_int (w * H) / rat_of_int W\<bar> * rat_of_int W \<le> 3 / 4"
proof -
  define q where "q = rat_of_int H / rat_of_int W"
  have rW: "0 < rat_of_int W" "1 \<le> rat_of_int W" and rH: "1 \<le> rat_of_int H"
    and rw: "1 \<le> rat_of_int w"
    using pos by simp_all
  have Hw: "H \<le> w * H" using pos by simp
  then have Hs: "H < 2 ^ 51" using small(2) by linarith
  have "w * 1 \<le> w * H" using pos by (intro mult_left_mono) simp_all
  then have ws: "w < 2 ^ 51" using small(2) by simp
  have rWs: "rat_of_int W \<le> 2 ^ 51"
  proof -
    have "rat_of_int W \<le> of_int (2 ^ 51)" using small(1) by (simp only: of_int_le_iff)
    then show ?thesis by simp
  qed
  have rHs: "rat_of_int H \<le> 2 ^ 51"
  proof -
    have "rat_of_int H \<le> of_int (2 ^ 51)" using Hs by (simp only: of_int_le_iff)
    then show ?thesis by simp
  qed
  have qlo: "1 / 2 ^ 51 \<le> q"
  proof -
    have "1 / 2 ^ 51 \<le> 1 / rat_of_int W" using rWs rW by (intro divide_left_mono) simp_all
    also have "\<dots> \<le> q" unfolding q_def using rH rW by (intro divide_right_mono) simp_all
    finally show ?thesis .
  qed
  have qhi: "q \<le> 2 ^ 51"
  proof -
    have "q \<le> rat_of_int H / 1" unfolding q_def using rH rW
      by (intro divide_left_mono) simp_all
    then show ?thesis using rHs by simp
  qed
  have "(0::rat) < 1 / 2 ^ 51" by simp
  then have q0: "0 < q" using qlo by linarith
  have "1 / 2 ^ 64 \<le> q" "q \<le> 2 ^ 64" using qlo qhi by simp_all
  then obtain a where a: "fl q = Fin a" "\<bar>a - q\<bar> \<le> q / 2 ^ 53" "0 < a"
    by (rule fl_close_mid)
  have "q / 2 ^ 53 \<le> q / 2" using q0 by (intro divide_left_mono) simp_all
  then have aq: "\<bar>a - q\<bar> \<le> q / 2" using a(2) by linarith
  have a_le: "a \<le> 2 * q" and a_ge: "q / 2 \<le> a"
    using aq q0 by linarith+
  define p where "p = rat_of_int w * a"
  have rws: "rat_of_int w \<le> 2 ^ 51"
  proof -
    have "rat_of_int w \<le> of_int (2 ^ 51)" using ws by (simp only: of_int_le_iff)
    then show ?thesis by simp
  qed
  have plo: "1 / 2 ^ 64 \<le> p"
  proof -
    have "(1::rat) / 2 ^ 64 \<le> (1 / 2 ^ 51) / 2" by simp
    also have "\<dots> \<le> q / 2" using qlo by simp
    also have "\<dots> \<le> a" by (rule a_ge)
    also have "\<dots> = 1 * a" by simp
    also have "\<dots> \<le> p" unfolding p_def using rw a(3) by (intro mult_right_mono) simp_all
    finally show ?thesis .
  qed
  have wq: "rat_of_int w * q = rat_of_int (w * H) / rat_of_int W"
    by (simp add: q_def)
  have wqs: "rat_of_int w * q * rat_of_int W \<le> 2 ^ 51"
  proof -
    have "rat_of_int (w * H) \<le> of_int (2 ^ 51)" using small(2) by (simp only: of_int_le_iff)
    then show ?thesis unfolding wq using rW by simp
  qed
  have wq_le: "rat_of_int w * q \<le> 2 ^ 51"
  proof -
    have "rat_of_int w * q * 1 \<le> rat_of_int w * q * rat_of_int W"
      using rW rw q0 by (intro mult_left_mono) simp_all
    then show ?thesis using wqs by simp
  qed
  have p_le: "p \<le> 2 * (rat_of_int w * q)"
    unfolding p_def using a_le rw by (simp add: mult_left_mono)
  then have phi: "p \<le> 2 ^ 64" using wq_le by simp
  obtain b where b: "fl p = Fin b" "\<bar>b - p\<bar> \<le> p / 2 ^ 53" "0 < b"
    using plo phi by (rule fl_close_mid)
  have conv: "int_to_float w = Inr (Fin (rat_of_int w))"
    using pos(3) ws by (intro int_to_float_exact) simp_all
  have W0: "W \<noteq> 0" using pos by simp
  have so: "scale_other w H W = Inr \<lfloor>b\<rfloor>"
    using a(1) b(1) b(3) W0 conv
    by (simp add: scale_other_def int_truediv_def int_mul_float_def q_def p_def trunc_pos)
  define X where "X = rat_of_int w * q"
  have t1: "\<bar>b - X\<bar> \<le> \<bar>b - p\<bar> + \<bar>p - X\<bar>" by simp
  have "\<bar>p - X\<bar> = rat_of_int w * \<bar>a - q\<bar>"
    unfolding p_def X_def using rw by (simp add: abs_mult flip: right_diff_distrib)
  moreover have "rat_of_int w * \<bar>a - q\<bar> \<le> rat_of_int w * (q / 2 ^ 53)"
    using a(2) rw by (intro mult_left_mono) simp_all
  moreover have "rat_of_int w * (q / 2 ^ 53) = X / 2 ^ 53" by (simp add: X_def)
  ultimately have t2: "\<bar>p - X\<bar> \<le> X / 2 ^ 53" by simp
  have "p / 2 ^ 53 \<le> (2 * X) / 2 ^ 53"
    using p_le unfolding X_def by (intro divide_right_mono) simp_all
  then have t3: "\<bar>b - p\<bar> \<le> 2 * X / 2 ^ 53" using b(2) by linarith
  have "\<bar>b - X\<bar> \<le> 3 * X / 2 ^ 53" using t1 t2 t3 by linarith
  then have "\<bar>b - rat_of_int w * q\<bar> \<le> 3 * (rat_of_int w * q) / 2 ^ 53"
    unfolding X_def .
  then have "\<bar>b - rat_of_int w * q\<bar> * rat_of_int W
      \<le> 3 * (rat_of_int w * q) / 2 ^ 53 * rat_of_int W"
    using rW by (intro mult_right_mono) simp_all
  also have "\<dots> = 3 * (rat_of_int w * q * rat_of_int W) / 2 ^ 53" by simp
  also have "\<dots> \<le> 3 * 2 ^ 51 / 2 ^ 53"
    using wqs by (intro divide_right_mono mult_left_mono) simp_all
  also have "\<dots> = 3 / 4" by simp
  finally have "\<bar>b - rat_of_int (w * H) / rat_of_int W\<bar> * rat_of_int W \<le> 3 / 4"
    unfolding wq .
  then show ?thesis using so b(3) that by blast
qed

lemma floor_near_quotient:
  fixes W N :: int and b :: rat
  assumes W: "0 < W" and near: "\<bar>b - rat_of_int N / rat_of_int W\<bar> * rat_of_int W \<le> 3 / 4"
  shows "\<lfloor>b\<rfloor> = N div W \<or> (W dvd N \<and> \<lfloor>b\<rfloor> = N div W - 1)"
proof -
  define t where "t = N div W"
  define j where "j = N mod W"
  define eps where "eps = 1 / rat_of_int W"
  define x where "x = rat_of_int N / rat_of_int W"
  have rW: "0 < rat_of_int W" "1 \<le> rat_of_int W" using W by simp_all
  have eps: "0 < eps" "eps \<le> 1" using rW by (simp_all add: eps_def)
  have j: "0 \<le> j" "j < W" using W by (simp_all add: j_def)
  have N: "N = t * W + j" by (simp add: t_def j_def)
  have x: "x = rat_of_int t + rat_of_int j * eps"
    unfolding x_def eps_def N using rW by (simp add: field_simps)
  have "\<bar>b - x\<bar> = \<bar>b - x\<bar> * rat_of_int W * eps" using rW by (simp add: eps_def)
  also have "\<dots> \<le> 3 / 4 * eps"
    using near eps(1) unfolding x_def by (intro mult_right_mono) simp_all
  finally have bx: "\<bar>b - x\<bar> \<le> 3 / 4 * eps" .
  show ?thesis
  proof (cases "j = 0")
    case True
    then have "x = rat_of_int t" using x by simp
    then have bt: "\<bar>b - rat_of_int t\<bar> \<le> 3 / 4 * eps" using bx by simp
    have b1: "rat_of_int t - 1 \<le> b" and b2: "b < rat_of_int t + 1"
      using bt eps by linarith+
    have "rat_of_int (t - 1) \<le> b" using b1 by simp
    then have f1: "t - 1 \<le> \<lfloor>b\<rfloor>" by (simp only: le_floor_iff)
    have "b < rat_of_int (t + 1)" using b2 by simp
    then have f2: "\<lfloor>b\<rfloor> < t + 1" by (simp only: floor_less_iff)
    have "\<lfloor>b\<rfloor> = t - 1 \<or> \<lfloor>b\<rfloor> = t" using f1 f2 by linarith
    moreover have "W dvd N" using True by (simp add: j_def dvd_eq_mod_eq_0)
    ultimately show ?thesis by (auto simp: t_def)
  next
    case False
    then have "1 \<le> j" using j by simp
    then have "rat_of_int 1 \<le> of_int j" by (simp only: of_int_le_iff)
    then have "1 * eps \<le> rat_of_int j * eps" using eps(1) by (intro mult_right_mono) simp_all
    then have lo: "rat_of_int t + eps \<le> x" using x by simp
    have "j \<le> W - 1" using j by simp
    then have "rat_of_int j \<le> of_int (W - 1)" by (simp only: of_int_le_iff)
    then have "rat_of_int j * eps \<le> rat_of_int (W - 1) * eps"
      using eps(1) by (intro mult_right_mono) simp_all
    moreover have "rat_of_int (W - 1) * eps = 1 - eps" using rW by (simp add: eps_def field_simps)
    ultimately have hi: "x \<le> rat_of_int t + 1 - eps" using x by simp
    have "rat_of_int t \<le> b" "b < rat_of_int t + 1" using bx lo hi eps by linarith+
    then have "\<lfloor>b\<rfloor> = t" by (rule floor_unique)
    then show ?thesis by (simp add: t_def)
  qed
qed

lemma fl_eval:
  assumes "0 < x" "2 powi e \<le> x" "x < 2 powi (e + 1)" "- 1022 \<le> e" "e \<le> 1022"
    and "round_half_even (x / 2 powi (e - 52)) = m"
  shows "fl x = Fin (of_int m * 2 powi (e - 52))"
  using fl_normal(1) [OF assms(1-5)] assms(6) by simp

lemma rhe_eval:
  assumes "rat_of_int m - 1 / 2 < y" "y < rat_of_int m + 1 / 2"
  shows "round_half_even y = m"
proof -
  have e: "\<bar>rat_of_int (round_half_even y) - y\<bar> \<le> 1 / 2" by (rule rhe_error)
  have "rat_of_int (round_half_even y) < rat_of_int m + 1" using e assms by linarith
  then have "rat_of_int (round_half_even y) < rat_of_int (m + 1)" by simp
  then have 1: "round_half_even y < m + 1" by (simp only: of_int_less_iff)
  have "rat_of_int m - 1 < rat_of_int (round_half_even y)" using e assms by linarith
  then have "rat_of_int (m - 1) < rat_of_int (round_half_even y)" by simp
  then have 2: "m - 1 < round_half_even y" by (simp only: of_int_less_iff)
  show ?thesis using 1 2 by linarith
qed

lemma fl_1_49: "fl (1 / 49) = Fin (5882252574524729 / 2 ^ 58)"
proof -
  have "round_half_even ((1 / 49) / 2 powi (- 6 - 52)) = 5882252574524729"
    by (rule rhe_eval) (simp_all add: power_int_minus_divide)
  then have "fl (1 / 49) = Fin (of_int 5882252574524729 * 2 powi (- 6 - 52))"
    by (intro fl_eval) (simp_all add: power_int_minus_divide)
  then show ?thesis by (simp add: power_int_minus_divide)
qed

lemma scale_other_value:
  assumes "0 < W" "0 < H" "0 < g" "W < 2 ^ 51" "g * H < 2 ^ 51"
  shows "\<exists>h. scale_other g H W = Inr h
    \<and> (h = (g * H) div W \<or> (W dvd g * H \<and> h = (g * H) div W - 1))"
proof -
  obtain b where b: "scale_other g H W = Inr \<lfloor>b\<rfloor>" "0 < b"
      "\<bar>b - rat_of_int (g * H) / rat_of_int W\<bar> * rat_of_int W \<le> 3 / 4"
    using assms by (rule scale_other_close)
  show ?thesis using b(1) floor_near_quotient [OF assms(1) b(3)] by blast
qed

lemma resized_image_width_only:
  assumes "branch t = WidthOnly" "t_width t = Some g" "img_size L img = (W, H)"
    "scale_other g H W = Inr h"
  shows "resized_image L t img =
    (case img_resize L img (g, h) of Inl e \<Rightarrow> Inl e | Inr r \<Rightarrow> Inr (r, Some g, Some h))"
  unfolding resized_image_def assms(1-3) by (simp add: assms(4))

lemma resized_image_height_only:
  assumes "branch t = HeightOnly" "t_height t = Some g" "img_size L img = (W, H)"
    "scale_other g W H = Inr w"
  shows "resized_image L t img =
    (case img_resize L img (w, g) of Inl e \<Rightarrow> Inl e | Inr r \<Rightarrow> Inr (r, Some w, Some g))"
  unfolding resized_image_def assms(1-3) by (simp add: assms(4))

text \<open>
  C7, as amended. In width-only mode, for an image and a requested width that are
  positive and below the stated size bounds, the width passed to the library is the
  requested one and the height is \<open>width * H / W\<close> rounded down, or one less than that
  when \<open>W\<close> divides \<open>width * H\<close> exactly: the quotient \<open>H / W\<close> and the product are each
  rounded to binary64 before the truncation. Height-only mode is the same computation
  with the two axes exchanged.
\<close>

theorem C7_single_dimension:
  assumes size: "img_size L img = (W, H)" "0 < W" "0 < H" "W < 2 ^ 51" "H < 2 ^ 51"
    and given: "0 < g" "g * H < 2 ^ 51" "g * W < 2 ^ 51"
  shows "(branch t = WidthOnly \<and> t_width t = Some g \<longrightarrow>
      (\<exists>h. (h = (g * H) div W \<or> (W dvd g * H \<and> h = (g * H) div W - 1))
         \<and> resized_image L t img =
             (case img_resize L img (g, h) of
                Inl e \<Rightarrow> Inl e | Inr r \<Rightarrow> Inr (r, Some g, Some h))))
    \<and> (branch t = HeightOnly \<and> t_height t = Some g \<longrightarrow>
      (\<exists>w. (w = (g * W) div H \<or> (H dvd g * W \<and> w = (g * W) div H - 1))
         \<and> resized_image L t img =
             (case img_resize L img (w, g) of
                Inl e \<Rightarrow> Inl e | Inr r \<Rightarrow> Inr (r, Some w, Some g))))"
proof (intro conjI impI)
  assume m: "branch t = WidthOnly \<and> t_width t = Some g"
  obtain h where h: "scale_other g H W = Inr h"
      "h = (g * H) div W \<or> (W dvd g * H \<and> h = (g * H) div W - 1)"
    using scale_other_value [OF size(2,3) given(1) size(4) given(2)] by blast
  show "\<exists>h. (h = (g * H) div W \<or> (W dvd g * H \<and> h = (g * H) div W - 1))
         \<and> resized_image L t img =
             (case img_resize L img (g, h) of
                Inl e \<Rightarrow> Inl e | Inr r \<Rightarrow> Inr (r, Some g, Some h))"
    using h resized_image_width_only [of t g L img W H h] m size(1) by blast
next
  assume m: "branch t = HeightOnly \<and> t_height t = Some g"
  obtain w where w: "scale_other g W H = Inr w"
      "w = (g * W) div H \<or> (H dvd g * W \<and> w = (g * W) div H - 1)"
    using scale_other_value [OF size(3,2) given(1) size(5) given(3)] by blast
  show "\<exists>w. (w = (g * W) div H \<or> (H dvd g * W \<and> w = (g * W) div H - 1))
         \<and> resized_image L t img =
             (case img_resize L img (w, g) of
                Inl e \<Rightarrow> Inl e | Inr r \<Rightarrow> Inr (r, Some w, Some g))"
    using w resized_image_height_only [of t g L img W H w] m size(1) by blast
qed

lemma fl_at:
  assumes "0 < x" "2 powi e \<le> x" "x < 2 powi (e + 1)" "- 1022 \<le> e" "e \<le> 1022"
    and "rat_of_int m - 1 / 2 < x / 2 powi (e - 52)" "x / 2 powi (e - 52) < rat_of_int m + 1 / 2"
  shows "fl x = Fin (of_int m * 2 powi (e - 52))"
  using assms(1-5) by (rule fl_eval) (rule rhe_eval [OF assms(6,7)])

lemma scale_other_eval:
  assumes "W \<noteq> 0" "0 \<le> g" "g < 2 ^ 53"
    and "fl (rat_of_int H / rat_of_int W) = Fin a" "fl (rat_of_int g * a) = Fin b"
  shows "scale_other g H W = Inr (trunc b)"
  using assms
  by (simp add: scale_other_def int_truediv_def int_mul_float_def int_to_float_exact)

lemma fl_49th: "fl (1 / 49) = Fin (5882252574524729 / 2 ^ 58)"
  using fl_at [of "1 / 49" "- 6" 5882252574524729] by (simp add: power_int_minus_divide)

lemma fl_49_times: "fl (49 * (5882252574524729 / 2 ^ 58)) = Fin (9007199254740991 / 2 ^ 53)"
  using fl_at [of "49 * (5882252574524729 / 2 ^ 58)" "- 1" 9007199254740991]
  by (simp add: power_int_minus_divide)

lemma fl_23_5: "fl (23 / 5) = Fin (5179139571476070 / 2 ^ 50)"
  using fl_at [of "23 / 5" 2 5179139571476070] by (simp add: power_int_minus_divide)

lemma fl_400_times: "fl (400 * (5179139571476070 / 2 ^ 50)) = Fin (8092405580431359 / 2 ^ 42)"
  using fl_at [of "400 * (5179139571476070 / 2 ^ 50)" 10 8092405580431359]
  by (simp add: power_int_minus_divide)

text \<open>
  The claim as it was stated fails: for a 49 by 1 image and width 49 the computed height
  is 0, not 1, and for a 5 by 23 image and width 400 it is 1839, not 1840.
\<close>

theorem C7_single_dimension_counterexample:
  "scale_other 49 1 49 = Inr 0 \<and> trunc (49 * 1 / 49) = 1
   \<and> scale_other 400 23 5 = Inr 1839 \<and> trunc (400 * 23 / 5) = 1840"
proof -
  have 1: "scale_other 49 1 49 = Inr (trunc (9007199254740991 / 2 ^ 53))"
    by (rule scale_other_eval [where a = "5882252574524729 / 2 ^ 58"])
      (simp_all add: fl_49th [simplified] fl_49_times [simplified])
  have 2: "scale_other 400 23 5 = Inr (trunc (8092405580431359 / 2 ^ 42))"
    by (rule scale_other_eval [where a = "5179139571476070 / 2 ^ 50"])
      (simp_all add: fl_23_5 [simplified] fl_400_times [simplified])
  have f1: "\<lfloor>(9007199254740991::rat) / 2 ^ 53\<rfloor> = 0" by (rule floor_unique) simp_all
  have f2: "\<lfloor>(8092405580431359::rat) / 2 ^ 42\<rfloor> = 1839" by (rule floor_unique) simp_all
  have t1: "trunc (9007199254740991 / 2 ^ 53) = 0" using f1 by (simp add: trunc_def)
  have t2: "trunc (8092405580431359 / 2 ^ 42) = 1839" using f2 by (simp add: trunc_def)
  have t3: "trunc (49 * 1 / 49) = 1" "trunc (400 * 23 / 5) = 1840" by (simp_all add: trunc_def)
  show ?thesis unfolding 1 2 t1 t2 using t3 by simp
qed

theorem C7_single_dimension_witness:
  "resized_image (plain_library (800, 600))
     (make_task (no_args\<lparr>a_width := Some 401\<rparr>) ''a.jpg'') (800, 600)
   = Inr ((401, 300), Some 401, Some 300)"
proof -
  let ?L = "plain_library (800, 600)"
  let ?t = "make_task (no_args\<lparr>a_width := Some 401\<rparr>) ''a.jpg''"
  have sz: "img_size ?L (800, 600) = (800, 600)" by (simp add: plain_library_def)
  have m: "branch ?t = WidthOnly \<and> t_width ?t = Some 401"
    by (simp add: branch_def make_task_def no_args_def)
  have "\<exists>h. (h = (401 * 600) div 800 \<or> (800 dvd (401::int) * 600 \<and> h = (401 * 600) div 800 - 1))
      \<and> resized_image ?L ?t (800, 600) =
          (case img_resize ?L (800, 600) (401, h) of
             Inl e \<Rightarrow> Inl e | Inr r \<Rightarrow> Inr (r, Some 401, Some h))"
    using C7_single_dimension [OF sz, of 401 ?t] m by simp
  then obtain h where h: "h = 300"
    and r: "resized_image ?L ?t (800, 600) =
          (case img_resize ?L (800, 600) (401, h) of
             Inl e \<Rightarrow> Inl e | Inr r \<Rightarrow> Inr (r, Some 401, Some h))"
    by auto
  show ?thesis unfolding r h by (simp add: plain_library_def)
qed

text \<open>
  C9. The configuration \<open>--width 400\<close> passes validation, and for every image of size
  1000 by 1 the width-only branch computes the height 0 and calls the library's
  \<open>resize\<close> with \<open>(400, 0)\<close>: whatever that call raises is an error of this file's task.
\<close>

theorem C9_zero_height_after_validation:
  assumes "img_size L img = (1000, 1)"
  shows "validate (no_args\<lparr>a_width := Some 400\<rparr>) = None
    \<and> branch (make_task (no_args\<lparr>a_width := Some 400\<rparr>) f) = WidthOnly
    \<and> scale_other 400 1 1000 = Inr 0
    \<and> resized_image L (make_task (no_args\<lparr>a_width := Some 400\<rparr>) f) img =
        (case img_resize L img (400, 0) of
           Inl e \<Rightarrow> Inl e | Inr r \<Rightarrow> Inr (r, Some 400, Some 0))"
proof -
  let ?t = "make_task (no_args\<lparr>a_width := Some 400\<rparr>) f"
  have v: "validate (no_args\<lparr>a_width := Some 400\<rparr>) = None"
    by (simp add: validate_def no_args_def)
  have b: "branch ?t = WidthOnly" and w: "t_width ?t = Some 400"
    by (simp_all add: branch_def make_task_def no_args_def)
  have "\<exists>h. scale_other 400 1 1000 = Inr h
      \<and> (h = (400 * 1) div 1000 \<or> (1000 dvd (400::int) * 1 \<and> h = (400 * 1) div 1000 - 1))"
    by (rule scale_other_value) simp_all
  then have s: "scale_other 400 1 1000 = Inr 0" by auto
  show ?thesis
    using v b s resized_image_width_only [OF b w assms s] by simp
qed

theorem C9_zero_height_after_validation_witness:
  "results_of (main (plain_system [''a.jpg'']) (plain_library (1000, 1))
     (no_args\<lparr>a_width := Some 400\<rparr>))
   = [Failed ''a.jpg'' (LibraryError ''height and width must be > 0'')]"
proof -
  let ?L = "plain_library (1000, 1)"
  let ?a = "no_args\<lparr>a_width := Some 400\<rparr>"
  let ?S = "plain_system [''a.jpg'']"
  have sz: "img_size ?L (1000, 1) = (1000, 1)" by (simp add: plain_library_def)
  note T = C9_zero_height_after_validation [OF sz, of "''a.jpg''"]
  from T have v: "validate ?a = None" by blast
  from T have r: "resized_image ?L (make_task ?a ''a.jpg'') (1000, 1) =
      (case img_resize ?L (1000, 1) (400, 0) of
         Inl e \<Rightarrow> Inl e | Inr r \<Rightarrow> Inr (r, Some 400, Some 0))"
    by blast
  have r': "resized_image ?L (make_task ?a ''a.jpg'') (1000, 1)
      = Inl (LibraryError ''height and width must be > 0'')"
    unfolding r by (simp add: plain_library_def)
  have ip: "input_path (make_task ?a ''a.jpg'') = ''in/a.jpg''"
    by (simp add: make_task_def no_args_def path_join_def)
  have out: "resize_image ?L (make_task ?a ''a.jpg'')
      = Failed ''a.jpg'' (LibraryError ''height and width must be > 0'')"
    unfolding resize_image_def attempt_def ip
    by (simp add: plain_library_def r' [unfolded plain_library_def] basename_def)
  have ex: "path_exists ?S (a_input ?a)" by (simp add: plain_system_def)
  have nw: "1 \<le> num_workers ?S ?a" by (simp add: num_workers_def plain_system_def no_args_def)
  have files: "get_image_files (listdir ?S (a_input ?a)) = [''a.jpg'']"
    by (simp add: plain_system_def get_image_files_def suffix_def extensions_def)
  show ?thesis
    unfolding results_of_main [OF ex v nw] files using out by simp
qed


section \<open>Percent mode\<close>

lemma fl_hundredth:
  assumes "0 \<le> N" "N < 2 ^ 52"
  shows "\<exists>r. fl (rat_of_int N / 100) = Fin r \<and> trunc r = N div 100"
proof (cases "100 dvd N")
  case True
  then obtain t where t: "N = 100 * t" by (rule dvdE)
  have t0: "0 \<le> t" "t < 2 ^ 53" using assms t by simp_all
  have "rat_of_int N / 100 = rat_of_int t" by (simp add: t)
  then have "fl (rat_of_int N / 100) = Fin (rat_of_int t)" using fl_int [OF t0] by simp
  moreover have "trunc (rat_of_int t) = N div 100" using t0 by (simp add: trunc_def t)
  ultimately show ?thesis by blast
next
  case False
  then have N: "1 \<le> N" using assms(1) by (cases "N = 0") simp_all
  define x where "x = rat_of_int N / 100"
  have "rat_of_int 1 \<le> rat_of_int N" using N by (simp only: of_int_le_iff)
  then have xlo: "1 / 100 \<le> x" by (simp add: x_def)
  have "rat_of_int N \<le> rat_of_int (2 ^ 52)" using assms(2) by (simp only: of_int_le_iff)
  then have xhi: "x \<le> 2 ^ 52 / 100" by (simp add: x_def)
  have "(1::rat) / 2 ^ 64 \<le> 1 / 100" by simp
  then have 1: "1 / 2 ^ 64 \<le> x" using xlo by linarith
  have "(2::rat) ^ 52 / 100 \<le> 2 ^ 64" by simp
  then have 2: "x \<le> 2 ^ 64" using xhi by linarith
  obtain r where r: "fl x = Fin r" "\<bar>r - x\<bar> \<le> x / 2 ^ 53" "0 < r"
    using 1 2 by (rule fl_close_mid)
  have "x / 2 ^ 53 \<le> (2 ^ 52 / 100) / 2 ^ 53" using xhi by (intro divide_right_mono) simp_all
  also have "\<dots> = 1 / 200" by simp
  finally have "\<bar>r - x\<bar> \<le> 1 / 200" using r(2) by linarith
  then have "\<bar>r - x\<bar> * 100 \<le> 1 / 200 * 100" by (intro mult_right_mono) simp_all
  then have "\<bar>r - x\<bar> * 100 \<le> 3 / 4" by simp
  then have "\<bar>r - rat_of_int N / rat_of_int 100\<bar> * rat_of_int 100 \<le> 3 / 4"
    by (simp add: x_def)
  then have "\<lfloor>r\<rfloor> = N div 100 \<or> (100 dvd N \<and> \<lfloor>r\<rfloor> = N div 100 - 1)"
    by (intro floor_near_quotient) simp_all
  then have "\<lfloor>r\<rfloor> = N div 100" using False by blast
  then have "trunc r = N div 100" using r(3) by (simp add: trunc_def)
  then show ?thesis using r(1) unfolding x_def by blast
qed

lemma percent_of_whole:
  assumes "0 \<le> n" "0 < k" "n * k < 2 ^ 52"
  shows "percent_of n (Fin (of_int k)) = Inr ((n * k) div 100)"
proof -
  have "n * 1 \<le> n * k" using assms(1,2) by (intro mult_left_mono) simp_all
  then have n: "n < 2 ^ 53" using assms(3) by simp
  have nk: "0 \<le> n * k" "n * k < 2 ^ 53" using assms by simp_all
  have c1: "int_to_float n = Inr (Fin (of_int n))" using assms(1) n by (rule int_to_float_exact)
  have c2: "int_to_float 100 = Inr (Fin 100)" using int_to_float_exact [of 100] by simp
  have m: "fl (rat_of_int n * rat_of_int k) = Fin (rat_of_int (n * k))"
    using fl_int [OF nk] by simp
  obtain r where r: "fl (rat_of_int (n * k) / 100) = Fin r" "trunc r = (n * k) div 100"
    using fl_hundredth [OF nk(1) assms(3)] by blast
  have "percent_of n (Fin (of_int k)) =
      (case fdiv (fl (rat_of_int n * rat_of_int k)) (Fin 100) of
         Inl e \<Rightarrow> Inl e | Inr b \<Rightarrow> float_to_int b)"
    unfolding percent_of_def int_mul_float_def float_div_int_def c1 c2 by simp
  also have "\<dots> = Inr (trunc r)" unfolding m using r(1) by simp
  finally show ?thesis by (simp add: r(2))
qed

lemma resized_image_percent_value:
  assumes "branch t = PercentMode" "t_percent t = Some p" "img_size L img = (W, H)"
    "percent_of W p = Inr w" "percent_of H p = Inr h"
  shows "resized_image L t img =
    (case img_resize L img (w, h) of Inl e \<Rightarrow> Inl e | Inr r \<Rightarrow> Inr (r, Some w, Some h))"
  unfolding resized_image_def assms(1-3) by (simp add: assms(4,5))

text \<open>
  C6, as amended. In percent mode with a whole-number percentage \<open>k > 0\<close>, for every
  image of dimensions \<open>(W, H)\<close> with \<open>W * k\<close> and \<open>H * k\<close> below \<open>2 ^ 52\<close>, the target
  dimensions are \<open>(W * k div 100, H * k div 100)\<close>, that is, the floors of \<open>W * k / 100\<close>
  and \<open>H * k / 100\<close>.
\<close>

theorem C6_percent_whole:
  assumes mode: "branch t = PercentMode" "t_percent t = Some (Fin (of_int k))" "0 < k"
    and size: "img_size L img = (W, H)" "0 \<le> W" "0 \<le> H"
    and small: "W * k < 2 ^ 52" "H * k < 2 ^ 52"
  shows "percent_of W (Fin (of_int k)) = Inr ((W * k) div 100)
    \<and> percent_of H (Fin (of_int k)) = Inr ((H * k) div 100)
    \<and> resized_image L t img =
        (case img_resize L img ((W * k) div 100, (H * k) div 100) of
           Inl e \<Rightarrow> Inl e
         | Inr r \<Rightarrow> Inr (r, Some ((W * k) div 100), Some ((H * k) div 100)))"
proof -
  have w: "percent_of W (Fin (of_int k)) = Inr ((W * k) div 100)"
    using size(2) mode(3) small(1) by (rule percent_of_whole)
  have h: "percent_of H (Fin (of_int k)) = Inr ((H * k) div 100)"
    using size(3) mode(3) small(2) by (rule percent_of_whole)
  show ?thesis
    using w h resized_image_percent_value [OF mode(1,2) size(1) w h] by blast
qed

theorem C6_percent_whole_witness:
  "resized_image (plain_library (801, 601))
     (make_task (no_args\<lparr>a_percent := Some (Fin 75)\<rparr>) ''a.jpg'') (801, 601)
   = Inr ((600, 450), Some 600, Some 450)"
proof -
  let ?L = "plain_library (801, 601)"
  let ?t = "make_task (no_args\<lparr>a_percent := Some (Fin 75)\<rparr>) ''a.jpg''"
  have b: "branch ?t = PercentMode" by (simp add: branch_def make_task_def no_args_def)
  have p: "t_percent ?t = Some (Fin (of_int 75))" by (simp add: make_task_def no_args_def)
  have sz: "img_size ?L (801, 601) = (801, 601)" by (simp add: plain_library_def)
  have "resized_image ?L ?t (801, 601) =
      (case img_resize ?L (801, 601) ((801 * 75) div 100, (601 * 75) div 100) of
         Inl e \<Rightarrow> Inl e
       | Inr r \<Rightarrow> Inr (r, Some ((801 * 75) div 100), Some ((601 * 75) div 100)))"
    using C6_percent_whole [OF b p _ sz] by simp
  then show ?thesis by (simp add: plain_library_def)
qed

lemma percent_of_eval:
  assumes "0 \<le> n" "n < 2 ^ 53" "fl (rat_of_int n * p) = Fin c" "fl (c / 100) = Fin d"
  shows "percent_of n (Fin p) = Inr (trunc d)"
proof -
  have c1: "int_to_float n = Inr (Fin (of_int n))" using assms(1,2) by (rule int_to_float_exact)
  have c2: "int_to_float 100 = Inr (Fin 100)" using int_to_float_exact [of 100] by simp
  show ?thesis
    unfolding percent_of_def int_mul_float_def float_div_int_def c1 c2
    using assms(3,4) by simp
qed

lemma fl_33_3: "fl (333 / 10) = Fin (2343279181116211 / 2 ^ 46)"
  using fl_at [of "333 / 10" 5 4686558362232422] by (simp add: power_int_minus_divide)

lemma fl_1000_times: "fl (1000 * (2343279181116211 / 2 ^ 46)) = Fin 33300"
  using fl_at [of "1000 * (2343279181116211 / 2 ^ 46)" 15 4576717150617600]
  by (simp add: power_int_minus_divide)

lemma fl_333: "fl (33300 / 100) = Fin 333"
  using fl_int [of 333] by simp

lemma fl_2_3: "fl (23 / 10) = Fin (2589569785738035 / 2 ^ 50)"
  using fl_at [of "23 / 10" 1 5179139571476070] by (simp add: power_int_minus_divide)

lemma fl_3000_times: "fl (3000 * (2589569785738035 / 2 ^ 50)) = Fin (7586630231654399 / 2 ^ 40)"
  using fl_at [of "3000 * (2589569785738035 / 2 ^ 50)" 12 7586630231654399]
  by (simp add: power_int_minus_divide)

lemma fl_69_less: "fl (7586630231654399 / 2 ^ 40 / 100) = Fin (4855443348258815 / 2 ^ 46)"
  using fl_at [of "7586630231654399 / 2 ^ 40 / 100" 6 4855443348258815]
  by (simp add: power_int_minus_divide)

text \<open>
  The claim as it was stated, for every percentage, fails. The percentage that \<open>33.3\<close>
  parses to is slightly below 33.3; on a width of 1000 the product rounds up to 33300 and
  the code yields 333, while the floor of \<open>W * p / 100\<close> for that \<open>p\<close> is 332. Read with
  the decimal the user typed the claim fails too: for 2.3 and a width of 3000 the code
  yields 68, while the floor of \<open>3000 * 2.3 / 100\<close> is 69.
\<close>

theorem C6_percent_counterexample:
  "fl (333 / 10) = Fin (2343279181116211 / 2 ^ 46)
   \<and> percent_of 1000 (Fin (2343279181116211 / 2 ^ 46)) = Inr 333
   \<and> \<lfloor>1000 * (2343279181116211 / 2 ^ 46) / (100::rat)\<rfloor> = 332
   \<and> fl (23 / 10) = Fin (2589569785738035 / 2 ^ 50)
   \<and> percent_of 3000 (Fin (2589569785738035 / 2 ^ 50)) = Inr 68
   \<and> \<lfloor>3000 * (23 / 10) / (100::rat)\<rfloor> = 69"
proof -
  have 1: "percent_of 1000 (Fin (2343279181116211 / 2 ^ 46)) = Inr (trunc 333)"
    by (rule percent_of_eval [where c = 33300])
      (simp_all add: fl_1000_times [simplified] fl_333 [simplified])
  have 2: "percent_of 3000 (Fin (2589569785738035 / 2 ^ 50))
      = Inr (trunc (4855443348258815 / 2 ^ 46))"
    by (rule percent_of_eval [where c = "7586630231654399 / 2 ^ 40"])
      (simp_all add: fl_3000_times [simplified] fl_69_less [simplified])
  have f1: "\<lfloor>(4855443348258815::rat) / 2 ^ 46\<rfloor> = 68" by (rule floor_unique) simp_all
  have t1: "trunc (4855443348258815 / 2 ^ 46) = 68" using f1 by (simp add: trunc_def)
  have t0: "trunc 333 = 333" by (simp add: trunc_def)
  have f2: "\<lfloor>1000 * (2343279181116211 / 2 ^ 46) / (100::rat)\<rfloor> = 332"
    by (rule floor_unique) simp_all
  have f3: "\<lfloor>3000 * (23 / 10) / (100::rat)\<rfloor> = 69" by simp
  show ?thesis
    using fl_33_3 fl_2_3 1 2 t0 t1 f2 f3 by simp
qed

end
